theory Spec2Isabelle
  imports Main "HOL-Library.AList" "HOL-Library.Multiset" "HOL-Library.Sublist"
begin

section \<open>Documents\<close>

text \<open>
  A decoded document is what Python's \<open>json\<close> module returns: \<open>None\<close>, a \<open>bool\<close>, a
  number, a \<open>str\<close>, a \<open>list\<close> or a \<open>dict\<close> with string keys. A \<open>dict\<close> keeps its items
  in insertion order, and the traversals below depend on that order, so a dict is an
  association list; \<open>dict_wf\<close> says that its keys are unique, as they are in every Python dict.
  Numbers are Python's unbounded integers; floating-point numbers are outside the embedding.
\<close>

datatype json =
    JNull
  | JBool bool
  | JInt int
  | JStr string
  | JList "json list"
  | JDict "(string \<times> json) list"

type_synonym dict = "(string \<times> json) list"

definition dict_wf :: "('k \<times> 'v) list \<Rightarrow> bool" where
  "dict_wf d = distinct (map fst d)"

definition keys :: "('k \<times> 'v) list \<Rightarrow> 'k set" where
  "keys d = fst ` set d"

text \<open>\<open>d[k] = v\<close>: the value is replaced in place when the key is present, and the item is
  appended otherwise. This is \<^const>\<open>AList.update\<close>.\<close>

abbreviation setitem :: "'k \<Rightarrow> 'v \<Rightarrow> ('k \<times> 'v) list \<Rightarrow> ('k \<times> 'v) list" where
  "setitem \<equiv> AList.update"

text \<open>\<open>d.get(k)\<close>: the value of the key, \<open>None\<close> when the key is absent.\<close>

definition dict_get :: "dict \<Rightarrow> string \<Rightarrow> json" where
  "dict_get d k = (case map_of d k of None \<Rightarrow> JNull | Some v \<Rightarrow> v)"

lemma dict_wf_Nil [simp]: "dict_wf []"
  by (simp add: dict_wf_def)

lemma length_dict_wf: "dict_wf d \<Longrightarrow> length d = card (keys d)"
  by (metis dict_wf_def distinct_card keys_def length_map list.set_map)

text \<open>The exceptions that the functions below raise or catch.\<close>

datatype error = OSError | JSONDecodeError | TypeError | ValueError | PicklingError

section \<open>search_nested_key\<close>

text \<open>
  The stack of the source is a Python list used from its end (\<open>append\<close>, \<open>extend\<close>, \<open>pop\<close>);
  here the head of the list is the top of the stack, so \<open>stack.append(v)\<close> is \<open>v # stack\<close>
  and \<open>stack.extend(xs)\<close> is \<open>fold (#) xs stack\<close>.
\<close>

fun search_items :: "string \<Rightarrow> dict \<Rightarrow> json list \<times> json list \<Rightarrow> json list \<times> json list" where
  "search_items search_key [] (found, stack) = (found, stack)"
| "search_items search_key ((k, v) # rest) (found, stack) =
     search_items search_key rest
       (if k = search_key then found @ [v] else found, v # stack)"

lemma search_items_stack:
  "snd (search_items search_key items (found, stack)) = rev (map snd items) @ stack"
  by (induction items arbitrary: found stack) auto

lemma search_items_found:
  "fst (search_items search_key items (found, stack)) =
     found @ map snd (filter (\<lambda>kv. fst kv = search_key) items)"
  by (induction items arbitrary: found stack) auto

fun nodes :: "json \<Rightarrow> nat" and nodes_list :: "json list \<Rightarrow> nat"
  and nodes_items :: "dict \<Rightarrow> nat" where
  "nodes (JList xs) = Suc (nodes_list xs)"
| "nodes (JDict items) = Suc (nodes_items items)"
| "nodes JNull = 1"
| "nodes (JBool b) = 1"
| "nodes (JInt n) = 1"
| "nodes (JStr s) = 1"
| "nodes_list [] = 0"
| "nodes_list (x # xs) = nodes x + nodes_list xs"
| "nodes_items [] = 0"
| "nodes_items (kv # items) = nodes (snd kv) + nodes_items items"

lemma nodes_list_append [simp]: "nodes_list (xs @ ys) = nodes_list xs + nodes_list ys"
  by (induction xs) auto

lemma nodes_list_rev [simp]: "nodes_list (rev xs) = nodes_list xs"
  by (induction xs) auto

lemma nodes_list_fold_Cons [simp]: "nodes_list (fold (#) xs ys) = nodes_list xs + nodes_list ys"
  by (induction xs arbitrary: ys) auto

lemma nodes_list_map_snd [simp]: "nodes_list (map snd items) = nodes_items items"
  by (induction items) auto

lemma search_items_stack_eq:
  "(found', stack') = search_items search_key items (found, stack) \<Longrightarrow>
     stack' = rev (map snd items) @ stack"
  using search_items_stack [of search_key items found stack] by (metis snd_conv)

function search_loop :: "string \<Rightarrow> json list \<Rightarrow> json list \<Rightarrow> json list" where
  "search_loop search_key [] found = found"
| "search_loop search_key (JDict items # stack) found =
     (case search_items search_key items (found, stack) of
        (found', stack') \<Rightarrow> search_loop search_key stack' found')"
| "search_loop search_key (JList xs # stack) found =
     search_loop search_key (fold (#) xs stack) found"
| "search_loop search_key (JNull # stack) found = search_loop search_key stack found"
| "search_loop search_key (JBool b # stack) found = search_loop search_key stack found"
| "search_loop search_key (JInt n # stack) found = search_loop search_key stack found"
| "search_loop search_key (JStr s # stack) found = search_loop search_key stack found"
  by pat_completeness auto
termination
  by (relation "measure (\<lambda>(search_key, stack, found). nodes_list stack)")
     (auto dest: search_items_stack_eq)

definition search_nested_key :: "json \<Rightarrow> string \<Rightarrow> json list" where
  "search_nested_key data search_key = search_loop search_key [data] []"


text \<open>
  The values the loop finds, by recursion on the document: under every mapping, each value
  whose key matches, followed by what its own subtree holds.
\<close>

fun matches :: "string \<Rightarrow> json \<Rightarrow> json list"
  and matches_list :: "string \<Rightarrow> json list \<Rightarrow> json list"
  and matches_items :: "string \<Rightarrow> dict \<Rightarrow> json list" where
  "matches search_key (JDict items) = matches_items search_key items"
| "matches search_key (JList xs) = matches_list search_key xs"
| "matches search_key JNull = []"
| "matches search_key (JBool b) = []"
| "matches search_key (JInt n) = []"
| "matches search_key (JStr s) = []"
| "matches_list search_key [] = []"
| "matches_list search_key (x # xs) = matches search_key x @ matches_list search_key xs"
| "matches_items search_key [] = []"
| "matches_items search_key (kv # items) =
     (if fst kv = search_key then [snd kv] else []) @ matches search_key (snd kv)
       @ matches_items search_key items"

lemma mset_matches_list_append:
  "mset (matches_list search_key (xs @ ys)) =
     mset (matches_list search_key xs) + mset (matches_list search_key ys)"
  by (induction xs) auto

lemma mset_matches_list_rev:
  "mset (matches_list search_key (rev xs)) = mset (matches_list search_key xs)"
  by (induction xs) (auto simp: mset_matches_list_append)

lemma mset_matches_list_fold_Cons:
  "mset (matches_list search_key (fold (#) xs ys)) =
     mset (matches_list search_key xs) + mset (matches_list search_key ys)"
  by (induction xs arbitrary: ys) auto

lemma mset_matches_items:
  "mset (matches_items search_key items) =
     mset (map snd (filter (\<lambda>kv. fst kv = search_key) items))
       + mset (matches_list search_key (map snd items))"
  by (induction items) auto

lemma search_items_eq:
  "search_items search_key items (found, stack) =
     (found @ map snd (filter (\<lambda>kv. fst kv = search_key) items), rev (map snd items) @ stack)"
  using search_items_found [of search_key items found stack]
    search_items_stack [of search_key items found stack]
  by (metis prod.collapse)

lemma mset_search_loop:
  "mset (search_loop search_key stack found) =
     mset found + mset (matches_list search_key stack)"
proof (induction search_key stack found rule: search_loop.induct)
  case (2 search_key items stack found)
  show ?case
    using "2.IH" [OF search_items_eq [symmetric]]
    by (simp add: search_items_eq mset_matches_list_append mset_matches_list_rev
        mset_matches_items)
next
  case (3 search_key xs stack found)
  then show ?case by (simp add: mset_matches_list_fold_Cons)
qed simp_all

lemma mset_search_nested_key:
  "mset (search_nested_key data search_key) = mset (matches search_key data)"
  by (simp add: search_nested_key_def mset_search_loop)

lemma mset_matches_items_sum:
  "mset (matches_items search_key items) =
     (\<Sum>kv\<leftarrow>items. (if fst kv = search_key then {#snd kv#} else {#})
        + mset (matches search_key (snd kv)))"
  by (induction items) auto

lemma mset_matches_list_sum:
  "mset (matches_list search_key xs) = (\<Sum>x\<leftarrow>xs. mset (matches search_key x))"
  by (induction xs) auto

section \<open>Python equality\<close>

text \<open>
  \<open>==\<close> on decoded documents: a \<open>bool\<close> equals the integer 0 or 1 it stands for, two lists
  are equal when they are equal item by item, and two dicts are equal when they have the same
  number of items and every key of the first has an equal value in the second, whatever the
  order of the items.
\<close>

lemma size_snd_items [termination_simp]:
  "(k, v) \<in> set items \<Longrightarrow> size v < Suc (size_list (size_prod (\<lambda>_. 0) size) items)"
  by (induction items) auto

fun py_eq :: "json \<Rightarrow> json \<Rightarrow> bool" where
  "py_eq JNull JNull = True"
| "py_eq (JBool a) (JBool b) = (a = b)"
| "py_eq (JBool a) (JInt n) = (n = (if a then 1 else 0))"
| "py_eq (JInt m) (JBool b) = (m = (if b then 1 else 0))"
| "py_eq (JInt m) (JInt n) = (m = n)"
| "py_eq (JStr s) (JStr t) = (s = t)"
| "py_eq (JList xs) (JList ys) = list_all2 py_eq xs ys"
| "py_eq (JDict d) (JDict e) =
     (length d = length e \<and>
      list_all (\<lambda>kv. case map_of e (fst kv) of None \<Rightarrow> False
                         | Some w \<Rightarrow> py_eq (snd kv) w) d)"
| "py_eq _ _ = False"

section \<open>Key update, removal and merge\<close>

text \<open>
  \<open>update_json_key\<close> and \<open>remove_json_key\<close> change the dict they are given and return that
  same object, while \<open>merge_json\<close> builds a new one. To tell the two apart, dict objects live
  in a store: a reference is a position in the list of all objects, and allocation appends.
  A reference of a running program always points into the store.
\<close>

type_synonym ref = nat
type_synonym store = "dict list"

definition update_json_key :: "store \<Rightarrow> ref \<Rightarrow> string \<Rightarrow> json \<Rightarrow> store \<times> ref" where
  "update_json_key s data key value = (s[data := setitem key value (s ! data)], data)"

definition remove_json_key :: "store \<Rightarrow> ref \<Rightarrow> string \<Rightarrow> store \<times> ref" where
  "remove_json_key s data key =
     (if key \<in> keys (s ! data) then (s[data := AList.delete key (s ! data)], data)
      else (s, data))"

text \<open>\<open>d.copy()\<close> allocates a new dict with the items of \<open>d\<close>; \<open>d.update(other)\<close> sets
  every item of \<open>other\<close> in \<open>d\<close>, in the order of \<open>other\<close>.\<close>

definition dict_copy :: "store \<Rightarrow> ref \<Rightarrow> store \<times> ref" where
  "dict_copy s d = (s @ [s ! d], length s)"

definition dict_update :: "store \<Rightarrow> ref \<Rightarrow> ref \<Rightarrow> store" where
  "dict_update s d other = s[d := fold (\<lambda>(k, v). setitem k v) (s ! other) (s ! d)]"

definition merge_json :: "store \<Rightarrow> ref \<Rightarrow> ref \<Rightarrow> store \<times> ref" where
  "merge_json s dict1 dict2 =
     (case dict_copy s dict1 of (s1, result) \<Rightarrow> (dict_update s1 result dict2, result))"

lemma map_of_fold_setitem:
  "map_of (fold (\<lambda>(k, v). setitem k v) d2 d1) = map_of d1 ++ map_of (rev d2)"
  by (induction d2 arbitrary: d1)
     (auto simp: update_conv' fun_eq_iff map_add_def split: option.splits)

lemma map_of_rev_distinct: "distinct (map fst d) \<Longrightarrow> map_of (rev d) = map_of d"
  by (metis distinct_rev map_of_inject_set rev_map set_rev)

lemma keys_conv_dom: "keys d = dom (map_of d)"
  by (simp add: keys_def dom_map_of_conv_image_fst)

lemma keys_setitem [simp]: "keys (setitem k v d) = insert k (keys d)"
  by (simp add: keys_conv_dom update_conv')

lemma keys_Nil [simp]: "keys [] = {}"
  by (simp add: keys_def)

lemma keys_Cons [simp]: "keys (kv # d) = insert (fst kv) (keys d)"
  by (simp add: keys_def)

lemma keys_append [simp]: "keys (d @ e) = keys d \<union> keys e"
  by (auto simp: keys_def)

lemma keys_fold_setitem: "keys (fold (\<lambda>(k, v). setitem k v) d2 d1) = keys d1 \<union> keys d2"
  by (induction d2 arbitrary: d1) auto

lemma dict_wf_fold_setitem:
  "dict_wf d1 \<Longrightarrow> dict_wf (fold (\<lambda>(k, v). setitem k v) d2 d1)"
  by (induction d2 arbitrary: d1) (auto simp: dict_wf_def distinct_update)

lemma merge_json_eq:
  "merge_json s dict1 dict2 =
     (s @ [fold (\<lambda>(k, v). setitem k v) ((s @ [s ! dict1]) ! dict2) (s ! dict1)], length s)"
  by (simp add: merge_json_def dict_copy_def dict_update_def)

section \<open>diff_json\<close>

text \<open>
  The source iterates over \<open>set(dict1) | set(dict2)\<close>. Python fixes no order for the elements
  of a set, so the order of that iteration is the parameter \<open>key_order\<close>, a list of the keys
  of the two dicts.
\<close>

definition diff_json :: "string list \<Rightarrow> dict \<Rightarrow> dict \<Rightarrow> dict" where
  "diff_json key_order dict1 dict2 =
     fold (\<lambda>key diff.
        if \<not> py_eq (dict_get dict1 key) (dict_get dict2 key)
        then setitem key
               (JDict [(''old'', dict_get dict1 key), (''new'', dict_get dict2 key)]) diff
        else diff) key_order []"

lemma map_of_diff_fold:
  "map_of (fold (\<lambda>key diff.
        if \<not> py_eq (dict_get a key) (dict_get b key)
        then setitem key (JDict [(''old'', dict_get a key), (''new'', dict_get b key)]) diff
        else diff) ks acc) k =
     (if k \<in> set ks \<and> \<not> py_eq (dict_get a k) (dict_get b k)
      then Some (JDict [(''old'', dict_get a k), (''new'', dict_get b k)])
      else map_of acc k)"
  by (induction ks arbitrary: acc) (auto simp: update_conv')

lemma dict_get_absent: "k \<notin> keys d \<Longrightarrow> dict_get d k = JNull"
  by (auto simp: dict_get_def keys_conv_dom split: option.splits)

lemma py_eq_JNull_right [simp]: "py_eq v JNull \<longleftrightarrow> v = JNull"
  by (cases v) auto

lemma py_eq_JNull_left [simp]: "py_eq JNull v \<longleftrightarrow> v = JNull"
  by (cases v) auto

section \<open>flatten_json\<close>

text \<open>\<open>str(i)\<close> for a list index: its decimal digits.\<close>

fun str_nat :: "nat \<Rightarrow> string" where
  "str_nat n =
     (if n < 10 then [char_of (48 + n)]
      else str_nat (n div 10) @ [char_of (48 + n mod 10)])"

declare str_nat.simps [simp del]

text \<open>\<open>f"{parent}{sep}{k}" if parent else k\<close>\<close>

definition new_key :: "string \<Rightarrow> string \<Rightarrow> string \<Rightarrow> string" where
  "new_key parent sep k = (if parent \<noteq> [] then parent @ sep @ k else k)"

text \<open>The two inner loops push the children of a mapping or of a sequence, in their order,
  each with its key; as before the head of the list is the top of the stack.\<close>

fun push_items ::
  "string \<Rightarrow> string \<Rightarrow> dict \<Rightarrow> (json \<times> string) list \<Rightarrow> (json \<times> string) list" where
  "push_items parent sep [] stack = stack"
| "push_items parent sep ((k, v) # rest) stack =
     push_items parent sep rest ((v, new_key parent sep k) # stack)"

fun push_elems ::
  "string \<Rightarrow> string \<Rightarrow> nat \<Rightarrow> json list \<Rightarrow> (json \<times> string) list \<Rightarrow> (json \<times> string) list" where
  "push_elems parent sep i [] stack = stack"
| "push_elems parent sep i (v # rest) stack =
     push_elems parent sep (Suc i) rest ((v, new_key parent sep (str_nat i)) # stack)"

fun nodes_stack :: "(json \<times> string) list \<Rightarrow> nat" where
  "nodes_stack [] = 0"
| "nodes_stack (cp # stack) = nodes (fst cp) + nodes_stack stack"

lemma nodes_stack_push_items [simp]:
  "nodes_stack (push_items parent sep d stack) = nodes_items d + nodes_stack stack"
  by (induction d arbitrary: stack) auto

lemma nodes_stack_push_elems [simp]:
  "nodes_stack (push_elems parent sep i xs stack) = nodes_list xs + nodes_stack stack"
  by (induction xs arbitrary: i stack) auto

function flatten_loop :: "string \<Rightarrow> (json \<times> string) list \<Rightarrow> dict \<Rightarrow> dict" where
  "flatten_loop sep [] items = items"
| "flatten_loop sep ((JDict d, parent) # stack) items =
     flatten_loop sep (push_items parent sep d stack) items"
| "flatten_loop sep ((JList xs, parent) # stack) items =
     flatten_loop sep (push_elems parent sep 0 xs stack) items"
| "flatten_loop sep ((JNull, parent) # stack) items =
     flatten_loop sep stack (setitem parent JNull items)"
| "flatten_loop sep ((JBool b, parent) # stack) items =
     flatten_loop sep stack (setitem parent (JBool b) items)"
| "flatten_loop sep ((JInt n, parent) # stack) items =
     flatten_loop sep stack (setitem parent (JInt n) items)"
| "flatten_loop sep ((JStr s, parent) # stack) items =
     flatten_loop sep stack (setitem parent (JStr s) items)"
  by pat_completeness auto
termination
  by (relation "measure (\<lambda>(sep, stack, items). nodes_stack stack)") auto

definition flatten_json :: "json \<Rightarrow> string \<Rightarrow> string \<Rightarrow> dict" where
  "flatten_json data parent_key sep = flatten_loop sep [(data, parent_key)] []"

section \<open>unflatten_json\<close>

text \<open>
  \<open>s.split(sep)\<close> cuts \<open>s\<close> at every occurrence of \<open>sep\<close>, from the left, and raises
  \<open>ValueError\<close> for the empty separator. \<open>split_loop\<close> carries the segment read so far.
\<close>

function split_loop :: "string \<Rightarrow> string \<Rightarrow> string \<Rightarrow> string list" where
  "split_loop sep cur [] = [cur]"
| "split_loop sep cur (c # cs) =
     (if sep \<noteq> [] \<and> take (length sep) (c # cs) = sep
      then cur # split_loop sep [] (drop (length sep) (c # cs))
      else split_loop sep (cur @ [c]) cs)"
  by pat_completeness auto
termination
  by (relation "measure (\<lambda>(sep, cur, s). length s)") auto

definition py_split :: "string \<Rightarrow> string \<Rightarrow> error + string list" where
  "py_split s sep = (if sep = [] then Inl ValueError else Inr (split_loop sep [] s))"

text \<open>
  The inner loop of \<open>unflatten_json\<close> walks from the dict \<open>d\<close> down the keys but the last,
  creating an empty dict where a key is missing, and sets the last key in the dict it
  reaches. The walk raises \<open>TypeError\<close> when it meets a value that is not a dict.
  \<open>insert_path\<close> returns the dict \<open>d\<close> as it is after these updates; the source makes
  them in place. \<open>split\<close> returns at least one segment, so the list of keys is never
  empty, and the first equation is there for totality only. Values are trees here, not
  references: the result is that of the source whenever no dict object occurs twice in
  \<open>flat_data\<close>, as in every decoded document.
\<close>

fun insert_path :: "dict \<Rightarrow> string list \<Rightarrow> json \<Rightarrow> error + dict" where
  "insert_path d [] value = Inl ValueError"
| "insert_path d [key] value = Inr (setitem key value d)"
| "insert_path d (key # rest) value =
     (case (case map_of d key of None \<Rightarrow> JDict [] | Some child \<Rightarrow> child) of
        JDict sub \<Rightarrow>
          (case insert_path sub rest value of
             Inl e \<Rightarrow> Inl e
           | Inr sub' \<Rightarrow> Inr (setitem key (JDict sub') d))
      | _ \<Rightarrow> Inl TypeError)"

fun unflatten_loop :: "string \<Rightarrow> dict \<Rightarrow> dict \<Rightarrow> error + dict" where
  "unflatten_loop sep [] nested = Inr nested"
| "unflatten_loop sep ((compound_key, value) # rest) nested =
     (case py_split compound_key sep of
        Inl e \<Rightarrow> Inl e
      | Inr key_list \<Rightarrow>
          (case insert_path nested key_list value of
             Inl e \<Rightarrow> Inl e
           | Inr nested' \<Rightarrow> unflatten_loop sep rest nested'))"

definition unflatten_json :: "dict \<Rightarrow> string \<Rightarrow> error + dict" where
  "unflatten_json flat_data sep = unflatten_loop sep flat_data []"

section \<open>The round trip of flatten_json and unflatten_json\<close>

text \<open>
  What the loop writes, by recursion on the document: the entries of a node with key
  \<open>parent\<close>, in the order in which the loop sets them. The children of a node are pushed in
  order and popped last first, and the whole subtree of a child is done before the child
  pushed before it.
\<close>

fun entries :: "string \<Rightarrow> string \<Rightarrow> json \<Rightarrow> dict"
  and entries_items :: "string \<Rightarrow> string \<Rightarrow> dict \<Rightarrow> dict"
  and entries_elems :: "string \<Rightarrow> string \<Rightarrow> nat \<Rightarrow> json list \<Rightarrow> dict" where
  "entries sep parent (JDict d) = entries_items sep parent d"
| "entries sep parent (JList xs) = entries_elems sep parent 0 xs"
| "entries sep parent JNull = [(parent, JNull)]"
| "entries sep parent (JBool b) = [(parent, JBool b)]"
| "entries sep parent (JInt n) = [(parent, JInt n)]"
| "entries sep parent (JStr s) = [(parent, JStr s)]"
| "entries_items sep parent [] = []"
| "entries_items sep parent (kv # d) =
     entries_items sep parent d @ entries sep (new_key parent sep (fst kv)) (snd kv)"
| "entries_elems sep parent i [] = []"
| "entries_elems sep parent i (v # xs) =
     entries_elems sep parent (Suc i) xs @ entries sep (new_key parent sep (str_nat i)) v"

fun entries_stack :: "string \<Rightarrow> (json \<times> string) list \<Rightarrow> dict" where
  "entries_stack sep [] = []"
| "entries_stack sep (cp # stack) = entries sep (snd cp) (fst cp) @ entries_stack sep stack"

lemma entries_stack_push_items:
  "entries_stack sep (push_items parent sep d stack) =
     entries_items sep parent d @ entries_stack sep stack"
  by (induction d arbitrary: stack) auto

lemma entries_stack_push_elems:
  "entries_stack sep (push_elems parent sep i xs stack) =
     entries_elems sep parent i xs @ entries_stack sep stack"
  by (induction xs arbitrary: i stack) auto

lemma flatten_loop_entries:
  "flatten_loop sep stack items =
     fold (\<lambda>(k, v). setitem k v) (entries_stack sep stack) items"
  by (induction sep stack items rule: flatten_loop.induct)
     (simp_all add: entries_stack_push_items entries_stack_push_elems)

lemma flatten_json_entries:
  "flatten_json data parent_key sep =
     fold (\<lambda>(k, v). setitem k v) (entries sep parent_key data) []"
  by (simp add: flatten_json_def flatten_loop_entries)

lemma fold_setitem_fresh:
  "distinct (map fst es) \<Longrightarrow> keys es \<inter> keys acc = {} \<Longrightarrow>
     fold (\<lambda>(k, v). setitem k v) es acc = acc @ es"
proof (induction es arbitrary: acc)
  case Nil
  show ?case by simp
next
  case (Cons e es)
  obtain k v where e: "e = (k, v)" by (cases e)
  with Cons.prems have k: "k \<notin> keys acc" by auto
  then have u: "setitem k v acc = acc @ [(k, v)]"
    by (induction acc) (auto simp: keys_def)
  have "fold (\<lambda>(k, v). setitem k v) es (acc @ [(k, v)]) = (acc @ [(k, v)]) @ es"
    using Cons.prems e by (intro Cons.IH) (auto simp: keys_def)
  with e u show ?case by simp
qed


text \<open>The same by paths: the leaves of a document, each with the list of keys that leads to
  it, in the order above; and the compound key that the loop builds along a path.\<close>

fun leaves :: "json \<Rightarrow> (string list \<times> json) list"
  and leaves_items :: "dict \<Rightarrow> (string list \<times> json) list"
  and leaves_elems :: "nat \<Rightarrow> json list \<Rightarrow> (string list \<times> json) list" where
  "leaves (JDict d) = leaves_items d"
| "leaves (JList xs) = leaves_elems 0 xs"
| "leaves JNull = [([], JNull)]"
| "leaves (JBool b) = [([], JBool b)]"
| "leaves (JInt n) = [([], JInt n)]"
| "leaves (JStr s) = [([], JStr s)]"
| "leaves_items [] = []"
| "leaves_items (kv # d) =
     leaves_items d @ map (\<lambda>px. (fst kv # fst px, snd px)) (leaves (snd kv))"
| "leaves_elems i [] = []"
| "leaves_elems i (v # xs) =
     leaves_elems (Suc i) xs @ map (\<lambda>px. (str_nat i # fst px, snd px)) (leaves v)"

fun descend :: "string \<Rightarrow> string \<Rightarrow> string list \<Rightarrow> string" where
  "descend sep parent [] = parent"
| "descend sep parent (k # p) = descend sep (new_key parent sep k) p"

lemma entries_leaves:
  "entries sep parent v = map (\<lambda>px. (descend sep parent (fst px), snd px)) (leaves v)"
  "entries_items sep parent d =
     map (\<lambda>px. (descend sep parent (fst px), snd px)) (leaves_items d)"
  "entries_elems sep parent i xs =
     map (\<lambda>px. (descend sep parent (fst px), snd px)) (leaves_elems i xs)"
  by (induction sep parent v and sep parent d and sep parent i xs
      rule: entries_entries_items_entries_elems.induct)
     (simp_all add: comp_def)

fun join :: "string \<Rightarrow> string list \<Rightarrow> string" where
  "join sep [] = []"
| "join sep [k] = k"
| "join sep (k # p) = k @ sep @ join sep p"

lemma join_Cons: "join sep (k # p) = (if p = [] then k else k @ sep @ join sep p)"
  by (cases p) simp_all

lemma descend_nonempty:
  "parent \<noteq> [] \<Longrightarrow> descend sep parent p = join sep (parent # p)"
  by (induction p arbitrary: parent) (auto simp: new_key_def join_Cons)

lemma descend_root:
  assumes "p \<noteq> []" and "length p \<ge> 2 \<longrightarrow> hd p \<noteq> []"
  shows "descend sep [] p = join sep p"
proof (cases p)
  case Nil
  with assms show ?thesis by simp
next
  case (Cons k q)
  show ?thesis
  proof (cases q)
    case Nil
    with Cons show ?thesis by (simp add: new_key_def)
  next
    case (Cons k' q')
    with \<open>p = k # q\<close> assms have "k \<noteq> []" by simp
    with \<open>p = k # q\<close> show ?thesis by (simp add: new_key_def descend_nonempty)
  qed
qed

lemma split_loop_dot_free:
  "CHR ''.'' \<notin> set k \<Longrightarrow> split_loop ''.'' cur (k @ r) = split_loop ''.'' (cur @ k) r"
  by (induction k arbitrary: cur) auto

lemma split_loop_join:
  assumes "p \<noteq> []" and "\<forall>k \<in> set p. CHR ''.'' \<notin> set k"
  shows "split_loop ''.'' cur (join ''.'' p) = (cur @ hd p) # tl p"
  using assms
proof (induction p arbitrary: cur)
  case Nil
  then show ?case by simp
next
  case (Cons k p)
  show ?case
  proof (cases "p = []")
    case True
    with Cons.prems show ?thesis
      using split_loop_dot_free [of k cur "[]"] by simp
  next
    case False
    have "split_loop ''.'' cur (k @ ''.'' @ join ''.'' p) =
        split_loop ''.'' (cur @ k) (''.'' @ join ''.'' p)"
      using Cons.prems by (simp add: split_loop_dot_free)
    also have "\<dots> = (cur @ k) # split_loop ''.'' [] (join ''.'' p)"
      by simp
    also have "split_loop ''.'' [] (join ''.'' p) = p"
      using Cons.IH [of "[]"] False Cons.prems by simp
    finally show ?thesis using False by (simp add: join_Cons)
  qed
qed

lemma split_join:
  "p \<noteq> [] \<Longrightarrow> \<forall>k \<in> set p. CHR ''.'' \<notin> set k \<Longrightarrow> split_loop ''.'' [] (join ''.'' p) = p"
  by (simp add: split_loop_join)

lemma split_loop_nonempty: "split_loop sep cur s \<noteq> []"
  by (induction sep cur s rule: split_loop.induct) auto

lemma join_split_loop: "join ''.'' (split_loop ''.'' cur s) = cur @ s"
  by (induction "''.''" cur s rule: split_loop.induct)
     (auto simp: join_Cons split_loop_nonempty)

lemma split_loop_segments:
  "CHR ''.'' \<notin> set cur \<Longrightarrow> k \<in> set (split_loop ''.'' cur s) \<Longrightarrow> CHR ''.'' \<notin> set k"
  by (induction "''.''" cur s arbitrary: k rule: split_loop.induct) (auto split: if_splits)


text \<open>
  The documents of the round trip: \<open>plain_items d\<close> says that the items of the mapping
  \<open>d\<close>, at every depth, have distinct keys without a dot and values that are scalars or
  non-empty mappings of the same kind. There is no sequence in such a document, and no
  empty mapping below its root.
\<close>

fun plain :: "json \<Rightarrow> bool" and plain_items :: "dict \<Rightarrow> bool" where
  "plain (JDict d) = (d \<noteq> [] \<and> plain_items d)"
| "plain (JList xs) = False"
| "plain JNull = True"
| "plain (JBool b) = True"
| "plain (JInt n) = True"
| "plain (JStr s) = True"
| "plain_items [] = True"
| "plain_items (kv # d) =
     (fst kv \<notin> keys d \<and> CHR ''.'' \<notin> set (fst kv) \<and> plain (snd kv) \<and> plain_items d)"

fun scalar :: "json \<Rightarrow> bool" where
  "scalar (JDict d) = False"
| "scalar (JList xs) = False"
| "scalar v = True"

text \<open>The outer loop of \<open>unflatten_json\<close> on compound keys that are already split.\<close>

fun build :: "dict \<Rightarrow> (string list \<times> json) list \<Rightarrow> error + dict" where
  "build nested [] = Inr nested"
| "build nested (px # rest) =
     (case insert_path nested (fst px) (snd px) of
        Inl e \<Rightarrow> Inl e
      | Inr nested' \<Rightarrow> build nested' rest)"

lemma unflatten_loop_build:
  "sep \<noteq> [] \<Longrightarrow> unflatten_loop sep es nested =
     build nested (map (\<lambda>kx. (split_loop sep [] (fst kx), snd kx)) es)"
  by (induction es arbitrary: nested) (auto simp: py_split_def split: sum.splits)

lemma build_append:
  "build nested (L1 @ L2) =
     (case build nested L1 of Inl e \<Rightarrow> Inl e | Inr nested' \<Rightarrow> build nested' L2)"
  by (induction L1 arbitrary: nested) (auto split: sum.splits)

lemma insert_path_Cons:
  "p \<noteq> [] \<Longrightarrow> insert_path d (k # p) x =
     (case (case map_of d k of None \<Rightarrow> JDict [] | Some child \<Rightarrow> child) of
        JDict sub \<Rightarrow>
          (case insert_path sub p x of
             Inl e \<Rightarrow> Inl e
           | Inr sub' \<Rightarrow> Inr (setitem k (JDict sub') d))
      | _ \<Rightarrow> Inl TypeError)"
proof (cases p)
  case Nil
  assume "p \<noteq> []"
  with Nil show ?thesis by simp
next
  case (Cons k' p')
  show ?thesis unfolding Cons by simp
qed

lemma build_below:
  assumes "map_of acc k = Some (JDict sub)" and "\<forall>px \<in> set L. fst px \<noteq> []"
  shows "build acc (map (\<lambda>px. (k # fst px, snd px)) L) =
     (case build sub L of Inl e \<Rightarrow> Inl e | Inr sub' \<Rightarrow> Inr (setitem k (JDict sub') acc))"
  using assms
proof (induction L arbitrary: acc sub)
  case Nil
  then show ?case by (simp add: update_triv)
next
  case (Cons px L)
  then have p: "fst px \<noteq> []" by simp
  show ?case
  proof (cases "insert_path sub (fst px) (snd px)")
    case (Inl e)
    with Cons.prems p show ?thesis by (simp add: insert_path_Cons)
  next
    case (Inr sub1)
    have "build (setitem k (JDict sub1) acc) (map (\<lambda>px. (k # fst px, snd px)) L) =
       (case build sub1 L of Inl e \<Rightarrow> Inl e
        | Inr sub' \<Rightarrow> Inr (setitem k (JDict sub') (setitem k (JDict sub1) acc)))"
      using Cons.prems by (intro Cons.IH) (simp_all add: update_conv')
    with Inr Cons.prems p show ?thesis
      by (simp add: insert_path_Cons split: sum.splits)
  qed
qed

lemma setitem_fresh: "k \<notin> keys d \<Longrightarrow> setitem k v d = d @ [(k, v)]"
  by (induction d) (auto simp: keys_def)

lemma map_of_fresh: "k \<notin> keys d \<Longrightarrow> map_of d k = None"
  by (simp add: keys_conv_dom domIff)

lemma setitem_last: "k \<notin> keys d \<Longrightarrow> setitem k v' (d @ [(k, v)]) = d @ [(k, v')]"
  by (induction d) (auto simp: keys_def)

lemma build_new_key:
  assumes "k \<notin> keys acc" and "L \<noteq> []" and "\<forall>px \<in> set L. fst px \<noteq> []"
  shows "build acc (map (\<lambda>px. (k # fst px, snd px)) L) =
     (case build [] L of Inl e \<Rightarrow> Inl e | Inr sub' \<Rightarrow> Inr (acc @ [(k, JDict sub')]))"
proof -
  from assms(2) obtain px L' where L: "L = px # L'" by (cases L) auto
  with assms(3) have p: "fst px \<noteq> []" and L': "\<forall>px \<in> set L'. fst px \<noteq> []" by simp_all
  show ?thesis
  proof (cases "insert_path [] (fst px) (snd px)")
    case (Inl e)
    with p assms(1) show ?thesis by (simp add: L insert_path_Cons map_of_fresh)
  next
    case (Inr sub1)
    have "build (acc @ [(k, JDict sub1)]) (map (\<lambda>px. (k # fst px, snd px)) L') =
      (case build sub1 L' of Inl e \<Rightarrow> Inl e
       | Inr sub' \<Rightarrow> Inr (setitem k (JDict sub') (acc @ [(k, JDict sub1)])))"
      using assms(1) L' by (intro build_below) (simp_all add: map_of_fresh map_add_def)
    with Inr p assms(1) show ?thesis
      by (simp add: L insert_path_Cons map_of_fresh setitem_fresh setitem_last
          split: sum.splits)
  qed
qed


text \<open>What the round trip returns: the document with the items of every mapping in
  reverse order.\<close>

fun deep_rev :: "json \<Rightarrow> json" and deep_rev_items :: "dict \<Rightarrow> dict" where
  "deep_rev (JDict d) = JDict (deep_rev_items d)"
| "deep_rev (JList xs) = JList xs"
| "deep_rev JNull = JNull"
| "deep_rev (JBool b) = JBool b"
| "deep_rev (JInt n) = JInt n"
| "deep_rev (JStr s) = JStr s"
| "deep_rev_items [] = []"
| "deep_rev_items (kv # d) = deep_rev_items d @ [(fst kv, deep_rev (snd kv))]"

lemma keys_deep_rev_items [simp]: "keys (deep_rev_items d) = keys d"
  by (induction d) auto

lemma leaves_items_path_nonempty: "px \<in> set (leaves_items d) \<Longrightarrow> fst px \<noteq> []"
  by (induction d) auto

lemma plain_leaves_nonempty:
  "plain v \<Longrightarrow> leaves v \<noteq> []"
  "plain_items d \<Longrightarrow> d \<noteq> [] \<Longrightarrow> leaves_items d \<noteq> []"
  by (induction v and d rule: plain_plain_items.induct) auto

lemma build_plain:
  "plain v \<Longrightarrow> k \<notin> keys acc \<Longrightarrow>
     build acc (map (\<lambda>px. (k # fst px, snd px)) (leaves v)) = Inr (acc @ [(k, deep_rev v)])"
  "plain_items d \<Longrightarrow> keys d \<inter> keys acc' = {} \<Longrightarrow>
     build acc' (leaves_items d) = Inr (acc' @ deep_rev_items d)"
proof (induction v and d arbitrary: k acc and acc' rule: plain_plain_items.induct)
  case (1 d)
  then have d: "d \<noteq> []" "plain_items d" by simp_all
  have "build [] (leaves_items d) = Inr ([] @ deep_rev_items d)"
    using d by (intro 1) simp_all
  moreover have "build acc (map (\<lambda>px. (k # fst px, snd px)) (leaves_items d)) =
     (case build [] (leaves_items d) of Inl e \<Rightarrow> Inl e
      | Inr sub' \<Rightarrow> Inr (acc @ [(k, JDict sub')]))"
    using 1(3) d plain_leaves_nonempty(2) [of d]
    by (intro build_new_key) (auto dest: leaves_items_path_nonempty)
  ultimately show ?case by simp
next
  case (8 kv d)
  then have p: "fst kv \<notin> keys d" "plain (snd kv)" "plain_items d" by simp_all
  have a: "build acc' (leaves_items d) = Inr (acc' @ deep_rev_items d)"
    using 8 by simp
  have "build (acc' @ deep_rev_items d)
      (map (\<lambda>px. (fst kv # fst px, snd px)) (leaves (snd kv))) =
      Inr ((acc' @ deep_rev_items d) @ [(fst kv, deep_rev (snd kv))])"
    using 8 by (intro "8.IH"(1)) auto
  with a show ?case by (simp add: build_append)
qed (simp_all add: setitem_fresh)


lemma leaves_items_mem:
  "px \<in> set (leaves_items d) \<longleftrightarrow>
     (\<exists>kv \<in> set d. \<exists>q \<in> set (leaves (snd kv)). px = (fst kv # fst q, snd q))"
  by (induction d) auto

lemma leaves_items_hd: "px \<in> set (leaves_items d) \<Longrightarrow> hd (fst px) \<in> keys d"
  by (force simp: leaves_items_mem keys_def)

lemma plain_distinct_paths:
  "plain v \<Longrightarrow> distinct (map fst (leaves v))"
  "plain_items d \<Longrightarrow> distinct (map fst (leaves_items d))"
proof (induction v and d rule: plain_plain_items.induct)
  case (8 kv d)
  then have d: "distinct (map fst (leaves_items d))"
    and v: "distinct (map fst (leaves (snd kv)))" and k: "fst kv \<notin> keys d"
    by simp_all
  have "distinct (map (\<lambda>px. fst kv # fst px) (leaves (snd kv)))"
    using v by (simp add: distinct_map inj_on_def comp_def)
  moreover have "fst ` set (leaves_items d) \<inter>
      (\<lambda>px. fst kv # fst px) ` set (leaves (snd kv)) = {}"
    using k leaves_items_hd [of _ d] by fastforce
  ultimately show ?case using d by (simp add: comp_def)
qed simp_all

lemma plain_dot_free:
  "plain v \<Longrightarrow> px \<in> set (leaves v) \<Longrightarrow> k \<in> set (fst px) \<Longrightarrow> CHR ''.'' \<notin> set k"
  "plain_items d \<Longrightarrow> px' \<in> set (leaves_items d) \<Longrightarrow> k' \<in> set (fst px') \<Longrightarrow>
     CHR ''.'' \<notin> set k'"
  by (induction v and d arbitrary: px k and px' k' rule: plain_plain_items.induct) auto

lemma scalar_leaves: "scalar v \<Longrightarrow> leaves v = [([], v)]"
  by (cases v) simp_all

text \<open>At the root the loop has no parent key, and it has none one level down either when
  the key there is the empty string. \<open>root_ok d\<close> says that the mapping \<open>d\<close> does not have
  the empty key with a mapping or a sequence as its value.\<close>

definition root_ok :: "dict \<Rightarrow> bool" where
  "root_ok d = list_all (\<lambda>kv. fst kv \<noteq> [] \<or> scalar (snd kv)) d"

lemma root_ok_paths:
  assumes "root_ok d" and "px \<in> set (leaves_items d)" and "2 \<le> length (fst px)"
  shows "hd (fst px) \<noteq> []"
proof -
  from assms(2) obtain kv q where kv: "kv \<in> set d" and q: "q \<in> set (leaves (snd kv))"
    and px: "px = (fst kv # fst q, snd q)"
    by (auto simp: leaves_items_mem)
  have "\<not> scalar (snd kv)"
  proof
    assume "scalar (snd kv)"
    with q have "fst q = []" by (simp add: scalar_leaves)
    with px assms(3) show False by simp
  qed
  with assms(1) kv have "fst kv \<noteq> []"
    by (auto simp: root_ok_def list_all_iff)
  with px show ?thesis by simp
qed

lemma join_inj_on:
  assumes "\<forall>p \<in> S. p \<noteq> [] \<and> (\<forall>k \<in> set p. CHR ''.'' \<notin> set k)"
  shows "inj_on (join ''.'') S"
  by (rule inj_on_inverseI [where g = "split_loop ''.'' []"]) (simp add: assms split_join)

lemma flatten_plain:
  assumes "plain_items d"
    and "\<forall>px \<in> set (leaves_items d). 2 \<le> length (fst px) \<longrightarrow> hd (fst px) \<noteq> []"
  shows "flatten_json (JDict d) [] ''.'' =
     map (\<lambda>px. (join ''.'' (fst px), snd px)) (leaves_items d)"
proof -
  let ?E = "map (\<lambda>px. (join ''.'' (fst px), snd px)) (leaves_items d)"
  have "entries ''.'' [] (JDict d) = ?E"
    using assms(2)
    by (auto simp: entries_leaves intro!: descend_root dest: leaves_items_path_nonempty)
  moreover have "distinct (map fst ?E)"
  proof -
    have "inj_on (join ''.'') (set (map fst (leaves_items d)))"
      using plain_dot_free(2) [OF assms(1)]
      by (intro join_inj_on) (auto dest: leaves_items_path_nonempty)
    then have "distinct (map (join ''.'') (map fst (leaves_items d)))"
      using plain_distinct_paths(2) [OF assms(1)] by (simp only: distinct_map simp_thms)
    then show ?thesis by (simp add: comp_def)
  qed
  ultimately show ?thesis
    by (simp add: flatten_json_entries fold_setitem_fresh)
qed

lemma unflatten_flatten_plain:
  assumes "plain_items d" and "root_ok d"
  shows "unflatten_json (flatten_json (JDict d) [] ''.'') ''.'' = Inr (deep_rev_items d)"
proof -
  have "map (\<lambda>kx. (split_loop ''.'' [] (fst kx), snd kx))
      (map (\<lambda>px. (join ''.'' (fst px), snd px)) (leaves_items d)) = leaves_items d"
  proof -
    have "split_loop ''.'' [] (join ''.'' (fst px)) = fst px" if "px \<in> set (leaves_items d)" for px
      using plain_dot_free(2) [OF assms(1) that] leaves_items_path_nonempty [OF that]
      by (intro split_join) auto
    then show ?thesis
      by (simp add: comp_def map_idI)
  qed
  then show ?thesis
    using build_plain(2) [OF assms(1), of "[]"]
    using root_ok_paths [OF assms(2)]
    by (simp add: unflatten_json_def unflatten_loop_build flatten_plain [OF assms(1)])
qed


lemma plain_items_distinct: "plain_items d \<Longrightarrow> distinct (map fst d)"
  by (induction d) (auto simp: keys_def)

lemma length_deep_rev_items [simp]: "length (deep_rev_items d) = length d"
  by (induction d) auto

lemma py_eq_deep_rev:
  "plain v \<Longrightarrow> py_eq (deep_rev v) v"
  "plain_items d \<Longrightarrow> set d \<subseteq> set B \<Longrightarrow> distinct (map fst B) \<Longrightarrow>
     list_all (\<lambda>kv. case map_of B (fst kv) of None \<Rightarrow> False | Some w \<Rightarrow> py_eq (snd kv) w)
       (deep_rev_items d)"
proof (induction v and d arbitrary: and B rule: plain_plain_items.induct)
  case (1 d)
  then have "plain_items d" by simp
  then show ?case
    using 1 plain_items_distinct [of d] by simp
next
  case (8 kv d)
  then have m: "map_of B (fst kv) = Some (snd kv)" by simp
  have e: "py_eq (deep_rev (snd kv)) (snd kv)" using 8 by simp
  have "list_all (\<lambda>kv. case map_of B (fst kv) of None \<Rightarrow> False | Some w \<Rightarrow> py_eq (snd kv) w)
       (deep_rev_items d)"
    using 8 by simp
  then show ?case by (simp add: m e)
qed simp_all

lemma leaves_items_append [simp]: "leaves_items (d @ e) = leaves_items e @ leaves_items d"
  by (induction d) auto

lemma plain_items_append:
  "plain_items (d @ e) \<longleftrightarrow> plain_items d \<and> plain_items e \<and> keys d \<inter> keys e = {}"
  by (induction d) auto

lemma plain_items_lookup:
  "plain_items d \<Longrightarrow> map_of d k = Some v \<Longrightarrow> plain v \<and> CHR ''.'' \<notin> set k"
  by (induction d) (auto split: if_splits)

lemma plain_items_setitem:
  "plain_items d \<Longrightarrow> plain w \<Longrightarrow> CHR ''.'' \<notin> set k \<Longrightarrow> plain_items (setitem k w d)"
  by (induction d) auto

lemma leaves_items_setitem:
  assumes "plain_items d" and "map_of d k = Some v"
  shows "set (leaves_items (setitem k w d)) =
     (set (leaves_items d) - (\<lambda>q. (k # fst q, snd q)) ` set (leaves v))
       \<union> (\<lambda>q. (k # fst q, snd q)) ` set (leaves w)"
  using assms
proof (induction d)
  case Nil
  then show ?case by simp
next
  case (Cons kv d)
  show ?case
  proof (cases "fst kv = k")
    case True
    with Cons.prems have v: "snd kv = v" and k: "k \<notin> keys d" by auto
    have "set (leaves_items d) \<inter> (\<lambda>q. (k # fst q, snd q)) ` set (leaves v) = {}"
      using k leaves_items_hd [of _ d] by fastforce
    with True v show ?thesis
      by (cases kv) auto
  next
    case False
    with Cons.prems have "map_of d k = Some v" "plain_items d" by auto
    then have "set (leaves_items (setitem k w d)) =
        (set (leaves_items d) - (\<lambda>q. (k # fst q, snd q)) ` set (leaves v))
          \<union> (\<lambda>q. (k # fst q, snd q)) ` set (leaves w)"
      by (intro Cons.IH)
    with False show ?thesis
      by (cases kv) auto
  qed
qed

lemma leaves_items_lookup:
  "map_of d k = Some v \<Longrightarrow> q \<in> set (leaves v) \<Longrightarrow> (k # fst q, snd q) \<in> set (leaves_items d)"
  by (induction d) (auto split: if_splits)

definition fresh_path :: "string list \<Rightarrow> dict \<Rightarrow> bool" where
  "fresh_path p d = (\<forall>px \<in> set (leaves_items d). \<not> prefix p (fst px) \<and> \<not> prefix (fst px) p)"

lemma insert_path_fresh:
  assumes "plain_items d" and "p \<noteq> []" and "\<forall>k \<in> set p. CHR ''.'' \<notin> set k"
    and "scalar x" and "fresh_path p d"
  shows "\<exists>d'. insert_path d p x = Inr d' \<and> plain_items d'
           \<and> set (leaves_items d') = insert (p, x) (set (leaves_items d))"
  using assms
proof (induction p arbitrary: d)
  case Nil
  then show ?case by simp
next
  case (Cons k p)
  have px: "plain x" using \<open>scalar x\<close> by (cases x) simp_all
  have lx: "leaves x = [([], x)]" using \<open>scalar x\<close> by (rule scalar_leaves)
  have k: "CHR ''.'' \<notin> set k" using Cons.prems by simp
  show ?case
  proof (cases "map_of d k")
    case None
    then have fresh: "k \<notin> keys d" by (simp add: keys_conv_dom domIff)
    show ?thesis
    proof (cases "p = []")
      case True
      with fresh Cons.prems px lx k show ?thesis
        by (simp add: setitem_fresh plain_items_append)
    next
      case False
      have "\<exists>d'. insert_path [] p x = Inr d' \<and> plain_items d'
           \<and> set (leaves_items d') = insert (p, x) (set (leaves_items []))"
        using False Cons.prems by (intro Cons.IH) (simp_all add: fresh_path_def)
      then obtain sub where sub: "insert_path [] p x = Inr sub" "plain_items sub"
        "set (leaves_items sub) = {(p, x)}" by auto
      then have "sub \<noteq> []" by auto
      with sub fresh None False k Cons.prems(1) show ?thesis
        by (simp add: insert_path_Cons setitem_fresh plain_items_append)
    qed
  next
    case (Some v)
    with Cons.prems have pv: "plain v" by (auto dest: plain_items_lookup)
    then obtain q where q: "q \<in> set (leaves v)"
      using plain_leaves_nonempty(1) [of v] by (cases "leaves v") auto
    with Some have in_d: "(k # fst q, snd q) \<in> set (leaves_items d)"
      by (rule leaves_items_lookup)
    show ?thesis
    proof (cases v)
      case (JDict sub)
      with pv have sub: "sub \<noteq> []" "plain_items sub" by simp_all
      have "p \<noteq> []"
      proof
        assume "p = []"
        then have "prefix (k # p) (k # fst q)" by simp
        with in_d Cons.prems(5) show False by (force simp: fresh_path_def)
      qed
      have "fresh_path p sub"
        unfolding fresh_path_def
      proof
        fix r assume "r \<in> set (leaves_items sub)"
        with Some JDict have "(k # fst r, snd r) \<in> set (leaves_items d)"
          by (auto intro: leaves_items_lookup)
        with Cons.prems(5) show "\<not> prefix p (fst r) \<and> \<not> prefix (fst r) p"
          by (force simp: fresh_path_def)
      qed
      then have "\<exists>d'. insert_path sub p x = Inr d' \<and> plain_items d'
           \<and> set (leaves_items d') = insert (p, x) (set (leaves_items sub))"
        using \<open>p \<noteq> []\<close> sub Cons.prems by (intro Cons.IH) simp_all
      then obtain sub' where sub': "insert_path sub p x = Inr sub'" "plain_items sub'"
        "set (leaves_items sub') = insert (p, x) (set (leaves_items sub))" by auto
      then have ne: "sub' \<noteq> []" by auto
      have sub_in: "(\<lambda>q. (k # fst q, snd q)) ` set (leaves_items sub) \<subseteq> set (leaves_items d)"
        using Some JDict by (auto intro: leaves_items_lookup)
      have "set (leaves_items (setitem k (JDict sub') d)) =
          (set (leaves_items d) - (\<lambda>q. (k # fst q, snd q)) ` set (leaves v))
       \<union> (\<lambda>q. (k # fst q, snd q)) ` set (leaves (JDict sub'))"
        using Cons.prems(1) Some by (rule leaves_items_setitem)
      also have "\<dots> = insert (k # p, x) (set (leaves_items d))"
        using sub_in by (auto simp: JDict sub'(3))
      finally have "set (leaves_items (setitem k (JDict sub') d)) =
          insert (k # p, x) (set (leaves_items d))" .
      moreover have "plain_items (setitem k (JDict sub') d)"
        using Cons.prems(1) sub'(2) ne k by (intro plain_items_setitem) simp_all
      ultimately show ?thesis
        using Some JDict sub'(1) \<open>p \<noteq> []\<close> by (simp add: insert_path_Cons)
    next
      case (JList xs)
      with pv show ?thesis by simp
    qed (use q in_d Cons.prems(5) in \<open>force simp: fresh_path_def\<close>)+
  qed
qed


text \<open>
  The flat mappings of the round trip. No compound key may continue another one: the
  segments of one key are never a prefix of the segments of another. No key starts with
  the separator, and every value is a scalar.
\<close>

fun prefix_free :: "string list list \<Rightarrow> bool" where
  "prefix_free [] = True"
| "prefix_free (p # ps) = (list_all (\<lambda>q. \<not> prefix p q \<and> \<not> prefix q p) ps \<and> prefix_free ps)"

definition flat_ok :: "dict \<Rightarrow> bool" where
  "flat_ok flat_data =
     (prefix_free (map (\<lambda>kx. split_loop ''.'' [] (fst kx)) flat_data)
      \<and> list_all (\<lambda>kx. take 1 (fst kx) \<noteq> ''.'' \<and> scalar (snd kx)) flat_data)"

lemma prefix_free_distinct: "prefix_free ps \<Longrightarrow> distinct ps"
  by (induction ps) (auto simp: list_all_iff)

lemma build_fresh:
  assumes "plain_items acc"
    and "\<forall>px \<in> set L. fst px \<noteq> [] \<and> (\<forall>k \<in> set (fst px). CHR ''.'' \<notin> set k) \<and> scalar (snd px)"
    and "prefix_free (map fst L)"
    and "\<forall>px \<in> set L. fresh_path (fst px) acc"
  shows "\<exists>T. build acc L = Inr T \<and> plain_items T
           \<and> set (leaves_items T) = set (leaves_items acc) \<union> set L"
  using assms
proof (induction L arbitrary: acc)
  case Nil
  then show ?case by simp
next
  case (Cons px L)
  have "\<exists>d'. insert_path acc (fst px) (snd px) = Inr d' \<and> plain_items d'
           \<and> set (leaves_items d') = insert (fst px, snd px) (set (leaves_items acc))"
    using Cons.prems by (intro insert_path_fresh) simp_all
  then obtain acc1 where acc1: "insert_path acc (fst px) (snd px) = Inr acc1" "plain_items acc1"
    "set (leaves_items acc1) = insert px (set (leaves_items acc))" by auto
  have "\<forall>qx \<in> set L. fresh_path (fst qx) acc1"
    using Cons.prems(3,4) by (auto simp: fresh_path_def acc1(3) list_all_iff)
  then have "\<exists>T. build acc1 L = Inr T \<and> plain_items T
           \<and> set (leaves_items T) = set (leaves_items acc1) \<union> set L"
    using Cons.prems acc1(2) by (intro Cons.IH) simp_all
  then show ?case
    using acc1 by auto
qed

lemma scalar_py_eq: "scalar x \<Longrightarrow> py_eq x x"
  by (cases x) simp_all

lemma py_eq_same_items:
  assumes "distinct (map fst A)" and "distinct (map fst B)" and "set A = set B"
    and "\<forall>kx \<in> set A. scalar (snd kx)"
  shows "py_eq (JDict A) (JDict B)"
proof -
  have "distinct A" "distinct B"
    using assms(1,2) by (auto simp: distinct_map)
  then have "length A = length B"
    using assms(3) by (metis distinct_card)
  moreover have "list_all (\<lambda>kv. case map_of B (fst kv) of None \<Rightarrow> False
                         | Some w \<Rightarrow> py_eq (snd kv) w) A"
    unfolding list_all_iff
  proof
    fix kx assume "kx \<in> set A"
    with assms(3) have "(fst kx, snd kx) \<in> set B" by simp
    with assms(2) have "map_of B (fst kx) = Some (snd kx)" by simp
    with assms(4) \<open>kx \<in> set A\<close>
    show "case map_of B (fst kx) of None \<Rightarrow> False | Some w \<Rightarrow> py_eq (snd kx) w"
      by (simp add: scalar_py_eq)
  qed
  ultimately show ?thesis by simp
qed

lemma leading_dot:
  assumes "2 \<le> length (split_loop ''.'' [] s)" and "hd (split_loop ''.'' [] s) = []"
  shows "take 1 s = ''.''"
proof -
  from assms obtain k p where sp: "split_loop ''.'' [] s = [] # k # p"
    by (cases "split_loop ''.'' [] s"; cases "tl (split_loop ''.'' [] s)") auto
  have "s = join ''.'' (split_loop ''.'' [] s)"
    by (simp add: join_split_loop)
  then show ?thesis
    by (simp add: sp)
qed

lemma flatten_unflatten_flat:
  assumes "flat_ok flat_data"
  shows "\<exists>nested. unflatten_json flat_data ''.'' = Inr nested
           \<and> dict_wf (flatten_json (JDict nested) [] ''.'')
           \<and> set (flatten_json (JDict nested) [] ''.'') = set flat_data"
proof -
  let ?L = "map (\<lambda>kx. (split_loop ''.'' [] (fst kx), snd kx)) flat_data"
  have L: "\<forall>px \<in> set ?L. fst px \<noteq> [] \<and> (\<forall>k \<in> set (fst px). CHR ''.'' \<notin> set k)
      \<and> scalar (snd px)"
    using assms split_loop_segments [of "[]"]
    by (auto simp: flat_ok_def list_all_iff split_loop_nonempty)
  have "\<exists>T. build [] ?L = Inr T \<and> plain_items T
           \<and> set (leaves_items T) = set (leaves_items []) \<union> set ?L"
    using assms L by (intro build_fresh) (simp_all add: flat_ok_def comp_def fresh_path_def)
  then obtain T where T: "build [] ?L = Inr T" "plain_items T" "set (leaves_items T) = set ?L"
    by auto
  have root: "\<forall>px \<in> set (leaves_items T). 2 \<le> length (fst px) \<longrightarrow> hd (fst px) \<noteq> []"
  proof (intro ballI impI)
    fix px assume "px \<in> set (leaves_items T)" and len: "2 \<le> length (fst px)"
    with T(3) obtain kx where kx: "kx \<in> set flat_data"
      and px: "fst px = split_loop ''.'' [] (fst kx)" by auto
    with assms have "take 1 (fst kx) \<noteq> ''.''"
      by (auto simp: flat_ok_def list_all_iff)
    with leading_dot [of "fst kx"] len px show "hd (fst px) \<noteq> []" by auto
  qed
  have "flatten_json (JDict T) [] ''.'' =
      map (\<lambda>px. (join ''.'' (fst px), snd px)) (leaves_items T)"
    using T(2) root by (rule flatten_plain)
  then have "set (flatten_json (JDict T) [] ''.'') =
      (\<lambda>px. (join ''.'' (fst px), snd px)) ` set ?L"
    by (simp add: T(3))
  also have "\<dots> = set flat_data"
    by (force simp: join_split_loop image_image)
  finally have "set (flatten_json (JDict T) [] ''.'') = set flat_data" .
  moreover have "dict_wf (flatten_json (JDict T) [] ''.'')"
    by (simp add: flatten_json_entries dict_wf_fold_setitem)
  ultimately show ?thesis
    using T(1) by (simp add: unflatten_json_def unflatten_loop_build)
qed

text \<open>A flat mapping and a document for the examples.\<close>

definition demo_flat :: dict where
  "demo_flat = [(''a.x'', JInt 1), (''b'', JStr ''two''), (''a.y.z'', JNull)]"

definition demo_doc :: dict where
  "demo_doc = [(''car'', JDict [(''type'', JStr ''sedan''),
                                (''engine'', JDict [(''power'', JInt 300)])])]"

lemma split_demo:
  "split_loop ''.'' [] ''a.x'' = [''a'', ''x'']"
  "split_loop ''.'' [] ''b'' = [''b'']"
  "split_loop ''.'' [] ''a.y.z'' = [''a'', ''y'', ''z'']"
  "split_loop ''.'' [] ''a.b'' = [''a'', ''b'']"
  "split_loop ''.'' [] ''a'' = [''a'']"
  "split_loop ''.'' [] ''.a'' = [[], ''a'']"
  "split_loop ''.'' [] ''car.type'' = [''car'', ''type'']"
  "split_loop ''.'' [] ''car.engine.power'' = [''car'', ''engine'', ''power'']"
  by simp_all

section \<open>Files and the codec\<close>

text \<open>
  The file system and the JSON codec are outside the repository. They are the fields of a
  record of primitives over a state \<open>'w\<close> of the file system, each returning the exception
  it raises (\<open>Inl\<close>) or its result: reading the text of a file, opening a file for writing
  (which truncates it), writing a text to an open file and closing it, \<open>json.loads\<close>,
  \<open>json.dumps\<close>, and \<open>json.dump\<close> into an open file. The keyword arguments handed on to
  the encoder have the type \<open>'o\<close>; they are arguments of \<open>json.dump\<close>, so none of them has
  the name of a parameter of the functions below. \<open>save_defaults\<close> completes them with the
  \<open>indent=4\<close> and \<open>ensure_ascii=False\<close> that \<open>JSONUtils.save_json_to_file\<close> adds, and
  \<open>picklable\<close> says whether they can be sent to a worker process: a function defined in
  place (\<open>default=lambda o: str(o)\<close>), for one, cannot. Paths and documents are plain data
  and can always be sent.
\<close>

record ('w, 'o) sys =
  read_text :: "string \<Rightarrow> 'w \<Rightarrow> error + string"
  open_w :: "string \<Rightarrow> 'w \<Rightarrow> (error + unit) \<times> 'w"
  write_text :: "string \<Rightarrow> string \<Rightarrow> 'w \<Rightarrow> (error + unit) \<times> 'w"
  json_loads :: "string \<Rightarrow> error + json"
  json_dumps :: "'o \<Rightarrow> json \<Rightarrow> error + string"
  json_dump :: "'o \<Rightarrow> json \<Rightarrow> string \<Rightarrow> 'w \<Rightarrow> (error + unit) \<times> 'w"
  save_defaults :: "'o \<Rightarrow> 'o"
  picklable :: "'o \<Rightarrow> bool"

text \<open>\<open>open(path, "w")\<close>: the empty path names no file, and opening it raises on every
  platform.\<close>

definition py_open_w :: "('w, 'o) sys \<Rightarrow> string \<Rightarrow> 'w \<Rightarrow> (error + unit) \<times> 'w" where
  "py_open_w sys path w = (if path = [] then (Inl OSError, w) else open_w sys path w)"

subsection \<open>Tasks\<close>

text \<open>
  The writes of a batch run side by side, as threads, coroutines or processes, and the file
  system sees their steps in some interleaving. A task is therefore a computation in steps:
  it has returned its result, or it waits to take its next step, which changes the state of
  the file system and gives the rest of the task. Other tasks may take steps in between, so
  the rest of a task starts from whatever state it then finds.
\<close>

datatype ('r, 'w) task = Return 'r | Await "'w \<Rightarrow> ('r, 'w) task \<times> 'w"

text \<open>\<open>resume t ws\<close> is the task \<open>t\<close> after it has taken its next steps in the states
  \<open>ws\<close>.\<close>

primrec resume :: "('r, 'w) task \<Rightarrow> 'w list \<Rightarrow> ('r, 'w) task" where
  "resume t [] = t"
| "resume t (w # ws) =
     (case t of Return r \<Rightarrow> Return r | Await f \<Rightarrow> resume (fst (f w)) ws)"

subsection \<open>One file\<close>

text \<open>\<open>JSONUtils.load_json_from_file\<close> and \<open>JSONUtils.save_json_to_file\<close> raise;
  the helpers around them catch every exception. A load reads the state and leaves it as
  it is. A save takes two steps: it opens the file, and it dumps the document into it.\<close>

definition load_json_from_file :: "('w, 'o) sys \<Rightarrow> string \<Rightarrow> 'w \<Rightarrow> error + json" where
  "load_json_from_file sys file_path w =
     (case read_text sys file_path w of
        Inl e \<Rightarrow> Inl e
      | Inr content \<Rightarrow> json_loads sys content)"

definition load_file_helper :: "('w, 'o) sys \<Rightarrow> string \<Rightarrow> 'w \<Rightarrow> string \<times> json" where
  "load_file_helper sys path w =
     (case load_json_from_file sys path w of
        Inr data \<Rightarrow> (path, data)
      | Inl e \<Rightarrow> (path, JNull))"

definition save_json_to_file ::
  "('w, 'o) sys \<Rightarrow> json \<Rightarrow> string \<Rightarrow> 'o \<Rightarrow> (error + unit, 'w) task" where
  "save_json_to_file sys data file_path kwargs =
     Await (\<lambda>w. case py_open_w sys file_path w of
        (Inl e, w1) \<Rightarrow> (Return (Inl e), w1)
      | (Inr u, w1) \<Rightarrow>
          (Await (\<lambda>w. case json_dump sys (save_defaults sys kwargs) data file_path w of
             (r, w2) \<Rightarrow> (Return r, w2)), w1))"

definition save_file_helper ::
  "('w, 'o) sys \<Rightarrow> string \<Rightarrow> json \<Rightarrow> 'o \<Rightarrow> (string option, 'w) task" where
  "save_file_helper sys path data kwargs =
     map_task (\<lambda>r. case r of Inr u \<Rightarrow> Some path | Inl e \<Rightarrow> None)
       (save_json_to_file sys data path kwargs)"

text \<open>\<open>JSONUtilsAsync.load_json_from_file\<close> and \<open>JSONUtilsAsync.save_json_to_file\<close>.
  The coroutine of a save encodes the document when it starts, then opens the file, then
  writes the text.\<close>

definition async_load_json_from_file :: "('w, 'o) sys \<Rightarrow> string \<Rightarrow> 'w \<Rightarrow> json" where
  "async_load_json_from_file sys file_path w =
     (case read_text sys file_path w of
        Inl e \<Rightarrow> JNull
      | Inr content \<Rightarrow>
          (case json_loads sys content of Inl e \<Rightarrow> JNull | Inr data \<Rightarrow> data))"

definition async_save_json_to_file ::
  "('w, 'o) sys \<Rightarrow> json \<Rightarrow> string \<Rightarrow> 'o \<Rightarrow> (string option, 'w) task" where
  "async_save_json_to_file sys data file_path kwargs =
     Await (\<lambda>w. case json_dumps sys kwargs data of
        Inl e \<Rightarrow> (Return None, w)
      | Inr json_str \<Rightarrow>
          (Await (\<lambda>w. case py_open_w sys file_path w of
             (Inl e, w1) \<Rightarrow> (Return None, w1)
           | (Inr u, w1) \<Rightarrow>
               (Await (\<lambda>w. case write_text sys file_path json_str w of
                  (Inl e, w2) \<Rightarrow> (Return None, w2)
                | (Inr u, w2) \<Rightarrow> (Return (Some file_path), w2)), w1)), w))"

text \<open>The module-level \<open>load_json_file\<close> and \<open>save_json_file\<close> of the process-pool
  module.\<close>

definition load_json_file :: "('w, 'o) sys \<Rightarrow> string \<Rightarrow> 'w \<Rightarrow> json" where
  "load_json_file sys path w =
     (case read_text sys path w of
        Inl e \<Rightarrow> JNull
      | Inr content \<Rightarrow>
          (case json_loads sys content of Inl e \<Rightarrow> JNull | Inr data \<Rightarrow> data))"

definition save_json_file ::
  "('w, 'o) sys \<Rightarrow> string \<times> json \<times> 'o \<Rightarrow> (string option, 'w) task" where
  "save_json_file sys args =
     (case args of (path, data, kwargs) \<Rightarrow>
        Await (\<lambda>w. case py_open_w sys path w of
           (Inl e, w1) \<Rightarrow> (Return None, w1)
         | (Inr u, w1) \<Rightarrow>
             (Await (\<lambda>w. case json_dump sys kwargs data path w of
                (Inl e, w2) \<Rightarrow> (Return None, w2)
              | (Inr u, w2) \<Rightarrow> (Return (Some path), w2)), w1)))"

subsection \<open>Running the tasks of a batch\<close>

text \<open>
  A batch load starts one task per path and waits for all of them. A load does not change
  the file system, so each is one step, and \<open>run_tasks\<close> runs them in the order of a
  schedule, a list of positions in the list of items, and returns each result with the
  position of its item, in the order of completion.
\<close>

fun run_tasks ::
  "('a \<Rightarrow> 'w \<Rightarrow> 'r \<times> 'w) \<Rightarrow> 'a list \<Rightarrow> nat list \<Rightarrow> 'w \<Rightarrow> (nat \<times> 'r) list \<times> 'w" where
  "run_tasks task args [] w = ([], w)"
| "run_tasks task args (i # sched) w =
     (case task (args ! i) w of (r, w1) \<Rightarrow>
        (case run_tasks task args sched w1 of (done, w2) \<Rightarrow> ((i, r) # done, w2)))"

definition schedule :: "nat \<Rightarrow> nat list \<Rightarrow> bool" where
  "schedule n sched = (mset sched = mset [0..<n])"

text \<open>
  A batch save runs its tasks in a pool. The pool holds what is left of each task, the
  state of the file system, the results of the finished tasks with the positions of their
  items, in the order of completion, and the trace of the run: for every step taken, the
  position of the item and the state in which the step began. A schedule for a pool names
  the task that takes the next step; naming a finished task has no effect.
\<close>

record ('r, 'w) pool =
  running :: "('r, 'w) task list"
  world :: 'w
  completed :: "(nat \<times> 'r) list"
  trace :: "(nat \<times> 'w) list"

definition start :: "('r, 'w) task list \<Rightarrow> 'w \<Rightarrow> ('r, 'w) pool" where
  "start ts w = \<lparr>running = ts, world = w, completed = [], trace = []\<rparr>"

definition step :: "nat \<Rightarrow> ('r, 'w) pool \<Rightarrow> ('r, 'w) pool" where
  "step i p =
     (if i < length (running p) then
        (case running p ! i of
           Return r \<Rightarrow> p
         | Await f \<Rightarrow>
             (case f (world p) of
                (Return r, w1) \<Rightarrow>
                  \<lparr>running = (running p)[i := Return r], world = w1,
                   completed = completed p @ [(i, r)], trace = trace p @ [(i, world p)]\<rparr>
              | (Await g, w1) \<Rightarrow>
                  \<lparr>running = (running p)[i := Await g], world = w1,
                   completed = completed p, trace = trace p @ [(i, world p)]\<rparr>))
      else p)"

definition run_pool :: "nat list \<Rightarrow> ('r, 'w) pool \<Rightarrow> ('r, 'w) pool" where
  "run_pool sched p = fold step sched p"

definition finished :: "('r, 'w) pool \<Rightarrow> bool" where
  "finished p = list_all (\<lambda>t. case t of Return r \<Rightarrow> True | Await f \<Rightarrow> False) (running p)"

text \<open>The states in which the steps of item \<open>i\<close> began.\<close>

definition steps_of :: "(nat \<times> 'w) list \<Rightarrow> nat \<Rightarrow> 'w list" where
  "steps_of tr i = map snd (filter (\<lambda>jw. fst jw = i) tr)"

text \<open>A schedule in which each of \<open>n\<close> tasks is named at least \<open>k\<close> times lets every
  task of at most \<open>k\<close> steps finish.\<close>

definition fair :: "nat \<Rightarrow> nat \<Rightarrow> nat list \<Rightarrow> bool" where
  "fair k n sched = list_all (\<lambda>i. k \<le> count_list sched i) [0..<n]"

text \<open>
  \<open>as_completed\<close> first yields the futures that have already finished when it is called,
  in the iteration order of a set, which Python leaves open, and then the others as they
  complete. The parameter \<open>set_order\<close> is that order: a list of positions in the list of
  completions, as long as the number of futures that had finished by then. With
  \<open>finished_first n set_order\<close> it is an order of the first completions of \<open>n\<close> futures.
  \<open>asyncio.gather\<close> and \<open>Pool.map\<close> return the results in the order of the items
  (\<open>gather\<close>).
\<close>

definition as_completed :: "nat list \<Rightarrow> 'a list \<Rightarrow> 'a list" where
  "as_completed set_order done =
     map (\<lambda>j. done ! j) set_order @ drop (length set_order) done"

definition finished_first :: "nat \<Rightarrow> nat list \<Rightarrow> bool" where
  "finished_first n set_order =
     (length set_order \<le> n \<and> schedule (length set_order) set_order)"

definition gather :: "nat \<Rightarrow> (nat \<times> 'r) list \<Rightarrow> 'r list" where
  "gather n done = List.map_filter (map_of done) [0..<n]"

subsection \<open>Batch load\<close>

definition load_multiple_json_files ::
  "('w, 'o) sys \<Rightarrow> nat list \<Rightarrow> nat list \<Rightarrow> string list \<Rightarrow> 'w \<Rightarrow> dict" where
  "load_multiple_json_files sys sched set_order file_paths w =
     (case run_tasks (\<lambda>path w. (load_file_helper sys path w, w)) file_paths sched w of
        (futures, w1) \<Rightarrow>
          fold (\<lambda>(path, data) results. setitem path data results)
            (map snd (as_completed set_order futures)) [])"

definition async_load_multiple_json_files ::
  "('w, 'o) sys \<Rightarrow> nat list \<Rightarrow> string list \<Rightarrow> 'w \<Rightarrow> dict" where
  "async_load_multiple_json_files sys sched file_paths w =
     (case run_tasks (\<lambda>path w. (async_load_json_from_file sys path w, w)) file_paths sched w of
        (tasks, w1) \<Rightarrow>
          fold (\<lambda>(path, data) results. setitem path data results)
            (zip file_paths (gather (length file_paths) tasks)) [])"

definition process_load_multiple_json_files ::
  "('w, 'o) sys \<Rightarrow> nat list \<Rightarrow> string list \<Rightarrow> 'w \<Rightarrow> dict" where
  "process_load_multiple_json_files sys sched file_paths w =
     (case run_tasks (\<lambda>path w. (load_json_file sys path w, w)) file_paths sched w of
        (tasks, w1) \<Rightarrow>
          fold (\<lambda>(path, data) results. setitem path data results)
            (zip file_paths (gather (length file_paths) tasks)) [])"

subsection \<open>Batch save\<close>

text \<open>
  Each batch save returns when all its tasks have finished; under a schedule that leaves a
  task unfinished it has not returned, which is the value \<open>None\<close>. The thread-pool
  version keeps a result when it is truthy (\<open>if result:\<close>): a path that is not the empty
  string. The other two keep every result that is not \<open>None\<close>. The process pool sends
  each tuple of path, document and keyword arguments to a worker before \<open>save_json_file\<close>
  runs, outside its \<open>try\<close>: when that fails, \<open>Pool.map\<close> raises the error to the caller and
  no task has run.
\<close>

definition thread_save_pool ::
  "('w, 'o) sys \<Rightarrow> nat list \<Rightarrow> (string \<times> json) list \<Rightarrow> 'o \<Rightarrow> 'w \<Rightarrow> (string option, 'w) pool" where
  "thread_save_pool sys sched file_data_pairs kwargs w =
     run_pool sched
       (start (map (\<lambda>(path, data). save_file_helper sys path data kwargs) file_data_pairs) w)"

definition save_multiple_json_files ::
  "('w, 'o) sys \<Rightarrow> nat list \<Rightarrow> nat list \<Rightarrow> (string \<times> json) list \<Rightarrow> 'o \<Rightarrow> 'w \<Rightarrow>
     (string list \<times> 'w) option" where
  "save_multiple_json_files sys sched set_order file_data_pairs kwargs w =
     (let p = thread_save_pool sys sched file_data_pairs kwargs w in
      if finished p then
        Some (fold (\<lambda>result success_paths.
                      case result of
                        Some path \<Rightarrow>
                          if path \<noteq> [] then success_paths @ [path] else success_paths
                      | None \<Rightarrow> success_paths)
                (map snd (as_completed set_order (completed p))) [], world p)
      else None)"

definition async_save_pool ::
  "('w, 'o) sys \<Rightarrow> nat list \<Rightarrow> (string \<times> json) list \<Rightarrow> 'o \<Rightarrow> 'w \<Rightarrow> (string option, 'w) pool" where
  "async_save_pool sys sched file_data_pairs kwargs w =
     run_pool sched
       (start (map (\<lambda>(path, data). async_save_json_to_file sys data path kwargs)
                 file_data_pairs) w)"

definition async_save_multiple_json_files ::
  "('w, 'o) sys \<Rightarrow> nat list \<Rightarrow> (string \<times> json) list \<Rightarrow> 'o \<Rightarrow> 'w \<Rightarrow>
     (string list \<times> 'w) option" where
  "async_save_multiple_json_files sys sched file_data_pairs kwargs w =
     (let p = async_save_pool sys sched file_data_pairs kwargs w in
      if finished p then
        Some (List.map_filter (\<lambda>r. r) (gather (length file_data_pairs) (completed p)),
              world p)
      else None)"

definition process_save_pool ::
  "('w, 'o) sys \<Rightarrow> nat list \<Rightarrow> (string \<times> json) list \<Rightarrow> 'o \<Rightarrow> 'w \<Rightarrow> (string option, 'w) pool" where
  "process_save_pool sys sched file_data_pairs kwargs w =
     run_pool sched
       (start (map (save_json_file sys)
                 (map (\<lambda>(path, data). (path, data, kwargs)) file_data_pairs)) w)"

definition process_save_multiple_json_files ::
  "('w, 'o) sys \<Rightarrow> nat list \<Rightarrow> (string \<times> json) list \<Rightarrow> 'o \<Rightarrow> 'w \<Rightarrow>
     ((error + string list) \<times> 'w) option" where
  "process_save_multiple_json_files sys sched file_data_pairs kwargs w =
     (if file_data_pairs \<noteq> [] \<and> \<not> picklable sys kwargs then Some (Inl PicklingError, w)
      else
        (let p = process_save_pool sys sched file_data_pairs kwargs w in
         if finished p then
           Some (Inr (List.map_filter (\<lambda>r. r) (gather (length file_data_pairs) (completed p))),
                 world p)
         else None))"

subsection \<open>A small system for the examples\<close>

text \<open>
  The state is the list of files with their texts. Every path but \<open>ro.json\<close> can be
  opened for writing, the codec knows the documents \<open>null\<close> and \<open>{}\<close>, and the keyword
  arguments are a boolean that says whether they can be pickled.
\<close>

definition demo_sys :: "((string \<times> string) list, bool) sys" where
  "demo_sys = \<lparr>
     read_text = (\<lambda>path w. case map_of w path of None \<Rightarrow> Inl OSError | Some t \<Rightarrow> Inr t),
     open_w = (\<lambda>path w. if path = ''ro.json'' then (Inl OSError, w)
                          else (Inr (), setitem path [] w)),
     write_text = (\<lambda>path t w. (Inr (), setitem path t w)),
     json_loads = (\<lambda>t. if t = ''null'' then Inr JNull
                         else if t = ''{}'' then Inr (JDict []) else Inl JSONDecodeError),
     json_dumps = (\<lambda>kwargs data. if data = JNull then Inr ''null''
                         else if data = JDict [] then Inr ''{}'' else Inl TypeError),
     json_dump = (\<lambda>kwargs data path w. if data = JNull then (Inr (), setitem path ''null'' w)
                         else if data = JDict [] then (Inr (), setitem path ''{}'' w)
                         else (Inl TypeError, w)),
     save_defaults = (\<lambda>kwargs. kwargs),
     picklable = (\<lambda>kwargs. kwargs) \<rparr>"

definition demo_files :: "(string \<times> string) list" where
  "demo_files = [(''a.json'', ''{}''), (''n.json'', ''null''), (''bad.json'', ''{'')]"

text \<open>A batch of three writes, of which the second path cannot be opened. In the schedule
  the tasks take their steps in turn, last to first.\<close>

definition demo_pairs :: "(string \<times> json) list" where
  "demo_pairs = [(''a.json'', JNull), (''ro.json'', JNull), (''b.json'', JDict [])]"

definition demo_sched :: "nat list" where
  "demo_sched = [2, 1, 0, 2, 1, 0, 2, 1, 0]"

subsection \<open>Facts about pools\<close>

lemma resume_Return [simp]: "resume (Return r) ws = Return r"
  by (cases ws) simp_all

lemma resume_append:
  "resume t (ws @ [w]) =
     (case resume t ws of Return r \<Rightarrow> Return r | Await f \<Rightarrow> fst (f w))"
  by (induction ws arbitrary: t) (auto split: task.splits)

lemma steps_of_Nil [simp]: "steps_of [] i = []"
  by (simp add: steps_of_def)

lemma steps_of_snoc [simp]:
  "steps_of (tr @ [(j, w)]) i = (if j = i then steps_of tr i @ [w] else steps_of tr i)"
  by (simp add: steps_of_def)

text \<open>What holds of a pool at every moment of a run that started with the tasks \<open>ts\<close>, none
  of them finished: each task is what its steps so far have left of it, and the completions
  are the finished tasks with their results, each once.\<close>

definition pool_inv :: "('r, 'w) task list \<Rightarrow> ('r, 'w) pool \<Rightarrow> bool" where
  "pool_inv ts p =
     (length (running p) = length ts
      \<and> (\<forall>i < length ts. running p ! i = resume (ts ! i) (steps_of (trace p) i))
      \<and> (\<forall>i r. (i, r) \<in> set (completed p) \<longleftrightarrow> i < length ts \<and> running p ! i = Return r)
      \<and> distinct (map fst (completed p)))"

lemma pool_inv_start:
  assumes "\<forall>t \<in> set ts. \<forall>r. t \<noteq> Return r"
  shows "pool_inv ts (start ts w)"
  using assms by (auto simp: pool_inv_def start_def)

lemma pool_inv_step:
  assumes "pool_inv ts p"
  shows "pool_inv ts (step i p)"
proof (cases "i < length (running p)")
  case False
  with assms show ?thesis by (simp add: step_def)
next
  case True
  note i = True
  from assms have len: "length (running p) = length ts"
    and res: "\<forall>j < length ts. running p ! j = resume (ts ! j) (steps_of (trace p) j)"
    and com: "\<forall>j r. (j, r) \<in> set (completed p) \<longleftrightarrow> j < length ts \<and> running p ! j = Return r"
    and dis: "distinct (map fst (completed p))"
    by (simp_all add: pool_inv_def)
  show ?thesis
  proof (cases "running p ! i")
    case (Return r)
    with assms i show ?thesis by (simp add: step_def)
  next
    case (Await f)
    obtain t w1 where f: "f (world p) = (t, w1)" by (cases "f (world p)")
    have new: "resume (ts ! i) (steps_of (trace p) i @ [world p]) = t"
      using res i len Await f by (simp add: resume_append)
    have notin: "i \<notin> fst ` set (completed p)"
      using com Await by force
    have old: "resume (ts ! i) (steps_of (trace p) i) = Await f"
      using res i len Await by simp
    show ?thesis
    proof (cases t)
      case (Return r)
      have "step i p = \<lparr>running = (running p)[i := Return r], world = w1,
                   completed = completed p @ [(i, r)], trace = trace p @ [(i, world p)]\<rparr>"
        using i Await f Return by (simp add: step_def)
      moreover have "pool_inv ts \<lparr>running = (running p)[i := Return r], world = w1,
                   completed = completed p @ [(i, r)], trace = trace p @ [(i, world p)]\<rparr>"
        unfolding pool_inv_def
        using len res com dis i new Return notin old
        by (auto simp: nth_list_update)
      ultimately show ?thesis by simp
    next
      case (Await g)
      have "step i p = \<lparr>running = (running p)[i := Await g], world = w1,
                   completed = completed p, trace = trace p @ [(i, world p)]\<rparr>"
        using i \<open>running p ! i = Await f\<close> f Await by (simp add: step_def)
      moreover have "pool_inv ts \<lparr>running = (running p)[i := Await g], world = w1,
                   completed = completed p, trace = trace p @ [(i, world p)]\<rparr>"
        unfolding pool_inv_def
        using len res com dis i new Await old
        by (auto simp: nth_list_update)
      ultimately show ?thesis by simp
    qed
  qed
qed

lemma pool_inv_run: "pool_inv ts p \<Longrightarrow> pool_inv ts (run_pool sched p)"
  unfolding run_pool_def by (induction sched arbitrary: p) (simp_all add: pool_inv_step)

text \<open>\<open>within k t\<close>: the task \<open>t\<close> finishes in at most \<open>k\<close> steps, whatever states it
  finds.\<close>

primrec within :: "nat \<Rightarrow> ('r, 'w) task \<Rightarrow> bool" where
  "within 0 t = (case t of Return r \<Rightarrow> True | Await f \<Rightarrow> False)"
| "within (Suc k) t = (case t of Return r \<Rightarrow> True | Await f \<Rightarrow> (\<forall>w. within k (fst (f w))))"

lemma within_Return [simp]: "within k (Return r)"
  by (cases k) simp_all

lemma within_mono: "within k t \<Longrightarrow> k \<le> m \<Longrightarrow> within m t"
proof (induction k arbitrary: m t)
  case 0
  then show ?case by (cases t) simp_all
next
  case (Suc k)
  then obtain m' where m: "m = Suc m'" and le: "k \<le> m'" by (cases m) auto
  show ?case
  proof (cases t)
    case (Return r)
    then show ?thesis by simp
  next
    case (Await f)
    with Suc.prems(1) have "\<forall>w. within k (fst (f w))" by simp
    with Suc.IH le have "\<forall>w. within m' (fst (f w))" by blast
    with Await m show ?thesis by simp
  qed
qed

lemma length_running_step [simp]: "length (running (step i p)) = length (running p)"
  by (auto simp: step_def split: task.splits prod.splits)

lemma running_step_other: "j \<noteq> i \<Longrightarrow> running (step i p) ! j = running p ! j"
  by (auto simp: step_def split: task.splits prod.splits)

lemma within_step:
  assumes "i < length (running p)" and "within (Suc k) (running p ! i)"
  shows "within k (running (step i p) ! i)"
proof (cases "running p ! i")
  case (Return r)
  with assms show ?thesis by (simp add: step_def)
next
  case (Await f)
  with assms(2) have "within k (fst (f (world p)))" by simp
  with assms(1) Await show ?thesis
    by (cases "f (world p)"; cases "fst (f (world p))") (simp_all add: step_def)
qed

lemma run_pool_finishes:
  assumes "\<forall>i < length (running p). within (count_list sched i) (running p ! i)"
  shows "finished (run_pool sched p)"
  using assms
proof (induction sched arbitrary: p)
  case Nil
  have "case t of Return r \<Rightarrow> True | Await f \<Rightarrow> False" if "t \<in> set (running p)" for t
  proof -
    from that obtain i where "i < length (running p)" "running p ! i = t"
      by (auto simp: in_set_conv_nth)
    with Nil show ?thesis by force
  qed
  then show ?case by (simp add: run_pool_def finished_def list_all_iff)
next
  case (Cons j sched)
  have "\<forall>i < length (running (step j p)). within (count_list sched i) (running (step j p) ! i)"
  proof (intro allI impI)
    fix i assume "i < length (running (step j p))"
    then have i: "i < length (running p)" by simp
    show "within (count_list sched i) (running (step j p) ! i)"
    proof (cases "i = j")
      case True
      from Cons.prems i True have "within (count_list (j # sched) j) (running p ! j)"
        by blast
      moreover have "count_list (j # sched) j = Suc (count_list sched j)" by simp
      ultimately have "within (Suc (count_list sched j)) (running p ! j)"
        by (simp only:)
      with True i show ?thesis by (simp add: within_step)
    next
      case False
      from Cons.prems i have "within (count_list (j # sched) i) (running p ! i)" by blast
      moreover have "count_list (j # sched) i = count_list sched i" using False by simp
      ultimately have "within (count_list sched i) (running p ! i)" by (simp only:)
      with False show ?thesis by (simp add: running_step_other)
    qed
  qed
  then have "finished (run_pool sched (step j p))" by (rule Cons.IH)
  then show ?case by (simp add: run_pool_def)
qed

lemma fair_finishes:
  assumes "fair k (length ts) sched" and "\<forall>t \<in> set ts. within k t"
  shows "finished (run_pool sched (start ts w))"
proof (rule run_pool_finishes, intro allI impI)
  fix i assume "i < length (running (start ts w))"
  then have i: "i < length ts" by (simp add: start_def)
  with assms(1) have "k \<le> count_list sched i" by (simp add: fair_def list_all_iff)
  moreover from assms(2) i have "within k (ts ! i)" by simp
  ultimately show "within (count_list sched i) (running (start ts w) ! i)"
    by (simp add: start_def within_mono)
qed

text \<open>When all tasks have finished, each position has one completion, with the result to
  which the steps of its task led.\<close>

lemma finished_completed:
  assumes "pool_inv ts p" and "finished p" and "i < length ts"
  shows "\<exists>r. map_of (completed p) i = Some r \<and> resume (ts ! i) (steps_of (trace p) i) = Return r"
proof -
  from assms(1) have "length (running p) = length ts" by (simp add: pool_inv_def)
  with assms(3) have "running p ! i \<in> set (running p)" by (metis nth_mem)
  with assms(2) obtain r where r: "running p ! i = Return r"
    by (cases "running p ! i") (auto simp: finished_def list_all_iff)
  with assms(1,3) have "(i, r) \<in> set (completed p)"
    and "resume (ts ! i) (steps_of (trace p) i) = Return r"
    and "distinct (map fst (completed p))"
    by (auto simp: pool_inv_def)
  then show ?thesis by auto
qed

lemma finished_schedule:
  assumes "pool_inv ts p" and "finished p"
  shows "schedule (length ts) (map fst (completed p))"
proof -
  have "set (map fst (completed p)) = {0..<length ts}"
  proof (intro set_eqI iffI)
    fix i assume "i \<in> set (map fst (completed p))"
    with assms(1) show "i \<in> {0..<length ts}" by (auto simp: pool_inv_def)
  next
    fix i assume "i \<in> {0..<length ts}"
    with finished_completed [OF assms, of i] show "i \<in> set (map fst (completed p))"
      by (auto dest: map_of_SomeD intro: rev_image_eqI)
  qed
  moreover have "distinct (map fst (completed p))"
    using assms(1) by (simp add: pool_inv_def)
  ultimately show ?thesis
    unfolding schedule_def by (metis distinct_upt set_eq_iff_mset_eq_distinct set_upt)
qed

subsection \<open>Facts about schedules and batch loads\<close>

lemma run_tasks_pure:
  "run_tasks (\<lambda>a w. (f a w, w)) args sched w = (map (\<lambda>i. (i, f (args ! i) w)) sched, w)"
  by (induction sched) auto

lemma schedule_set: "schedule n sched \<Longrightarrow> set sched = {0..<n}"
  unfolding schedule_def by (metis set_mset_mset set_upt)

lemma schedule_distinct: "schedule n sched \<Longrightarrow> distinct sched"
  unfolding schedule_def by (metis distinct_upt mset_eq_imp_distinct_iff)

lemma schedule_length: "schedule n sched \<Longrightarrow> length sched = n"
  unfolding schedule_def by (metis length_upt mset_eq_length minus_nat.diff_0)

lemma as_completed_map:
  assumes "finished_first (length xs) set_order"
  shows "as_completed set_order (map h xs) = map h (as_completed set_order xs)"
proof -
  have "j < length xs" if "j \<in> set set_order" for j
    using that assms schedule_set [of "length set_order" set_order]
    by (auto simp: finished_first_def)
  then show ?thesis
    by (simp add: as_completed_def drop_map)
qed

lemma as_completed_mset:
  assumes "finished_first (length xs) set_order"
  shows "mset (as_completed set_order xs) = mset xs"
proof -
  let ?k = "length set_order"
  from assms have k: "?k \<le> length xs" and s: "mset set_order = mset [0..<?k]"
    by (simp_all add: finished_first_def schedule_def)
  have "mset (map (\<lambda>j. xs ! j) set_order) = mset (map (\<lambda>j. xs ! j) [0..<?k])"
    using s by (metis mset_map)
  also have "map (\<lambda>j. xs ! j) [0..<?k] = take ?k xs"
    using k by (intro nth_equalityI) simp_all
  finally have "mset (map (\<lambda>j. xs ! j) set_order) = mset (take ?k xs)" .
  then have "mset (as_completed set_order xs) = mset (take ?k xs) + mset (drop ?k xs)"
    by (simp add: as_completed_def)
  also have "\<dots> = mset (take ?k xs @ drop ?k xs)"
    by (simp only: mset_append)
  finally show ?thesis by simp
qed

lemma as_completed_schedule:
  assumes "schedule n sched" and "finished_first n set_order"
  shows "schedule n (as_completed set_order sched)"
  using assms as_completed_mset [of sched set_order]
  by (simp add: schedule_def schedule_length [OF assms(1)])

lemma as_completed_Nil [simp]: "as_completed [] xs = xs"
  by (simp add: as_completed_def)

lemma gather_graph:
  assumes "schedule n sched"
  shows "gather n (map (\<lambda>i. (i, g i)) sched) = map g [0..<n]"
proof -
  have "map_of (map (\<lambda>i. (i, g i)) sched) i = Some (g i)" if "i < n" for i
    using that schedule_set [OF assms] by (simp add: map_of_map_restrict)
  then show ?thesis
    unfolding gather_def List.map_filter_def by (auto simp: comp_def intro!: map_cong filter_True)
qed

lemma zip_map_nth:
  "zip xs (map (\<lambda>i. f (xs ! i)) [0..<length xs]) = map (\<lambda>x. (x, f x)) xs"
  by (rule nth_equalityI) auto

lemma map_of_fold_setitem_graph:
  "map_of (fold (\<lambda>(k, v). setitem k v) (map (\<lambda>x. (x, f x)) xs) []) k =
     (if k \<in> set xs then Some (f k) else None)"
  by (simp add: map_of_fold_setitem rev_map map_of_map_restrict restrict_map_def)

text \<open>What a batch load reports for one path: the decoded document, or \<open>None\<close>.\<close>

definition load_outcome :: "('w, 'o) sys \<Rightarrow> 'w \<Rightarrow> string \<Rightarrow> json" where
  "load_outcome sys w path =
     (case load_json_from_file sys path w of Inl e \<Rightarrow> JNull | Inr data \<Rightarrow> data)"

lemma load_file_helper_eq: "load_file_helper sys path w = (path, load_outcome sys w path)"
  by (simp add: load_file_helper_def load_outcome_def split: sum.splits)

lemma async_load_eq: "async_load_json_from_file sys path w = load_outcome sys w path"
  by (simp add: async_load_json_from_file_def load_outcome_def load_json_from_file_def
      split: sum.splits)

lemma load_json_file_eq: "load_json_file sys path w = load_outcome sys w path"
  by (simp add: load_json_file_def load_outcome_def load_json_from_file_def
      split: sum.splits)

lemma thread_load_eq:
  assumes "schedule (length file_paths) sched"
    and "finished_first (length file_paths) set_order"
  shows "load_multiple_json_files sys sched set_order file_paths w =
     fold (\<lambda>(k, v). setitem k v)
       (map (\<lambda>p. (p, load_outcome sys w p))
          (map (\<lambda>i. file_paths ! i) (as_completed set_order sched))) []"
proof -
  have "finished_first (length sched) set_order"
    using assms by (simp add: schedule_length)
  then show ?thesis
    by (simp add: load_multiple_json_files_def run_tasks_pure as_completed_map
        load_file_helper_eq comp_def)
qed

lemma async_load_eq_fold:
  assumes "schedule (length file_paths) sched"
  shows "async_load_multiple_json_files sys sched file_paths w =
     fold (\<lambda>(k, v). setitem k v) (map (\<lambda>p. (p, load_outcome sys w p)) file_paths) []"
  by (simp add: async_load_multiple_json_files_def run_tasks_pure async_load_eq
      gather_graph [OF assms] zip_map_nth)

lemma process_load_eq_fold:
  assumes "schedule (length file_paths) sched"
  shows "process_load_multiple_json_files sys sched file_paths w =
     fold (\<lambda>(k, v). setitem k v) (map (\<lambda>p. (p, load_outcome sys w p)) file_paths) []"
  by (simp add: process_load_multiple_json_files_def run_tasks_pure load_json_file_eq
      gather_graph [OF assms] zip_map_nth)

lemma set_map_nth_schedule:
  assumes "schedule (length xs) sched"
  shows "set (map (\<lambda>i. xs ! i) sched) = set xs"
proof -
  have "set (map (\<lambda>i. xs ! i) sched) = (\<lambda>i. xs ! i) ` {0..<length xs}"
    using schedule_set [OF assms] by simp
  also have "\<dots> = set xs"
    by (auto simp: set_conv_nth)
  finally show ?thesis .
qed

lemma batch_load_entry:
  assumes "schedule (length file_paths) sched"
    and "finished_first (length file_paths) set_order" and "p \<in> set file_paths"
  shows "map_of (load_multiple_json_files sys sched set_order file_paths w) p
           = Some (load_outcome sys w p)"
    and "map_of (async_load_multiple_json_files sys sched file_paths w) p
           = Some (load_outcome sys w p)"
    and "map_of (process_load_multiple_json_files sys sched file_paths w) p
           = Some (load_outcome sys w p)"
  using assms(3) set_map_nth_schedule [OF as_completed_schedule [OF assms(1,2)]]
  by (simp_all only: thread_load_eq [OF assms(1,2)] async_load_eq_fold [OF assms(1)]
      process_load_eq_fold [OF assms(1)] map_of_fold_setitem_graph if_True)

section \<open>The claims\<close>

text \<open>
  C1, as stated: \<open>flatten(unflatten(F)) == F\<close> for every flat mapping without index
  segments, and \<open>unflatten(flatten(D)) == D\<close> for every document without sequences. With
  the keys \<open>a\<close> and \<open>a.b\<close> in one flat mapping, \<open>unflatten_json\<close> raises \<open>TypeError\<close> or
  loses \<open>a.b\<close>, depending on their order; the key \<open>.a\<close> comes back as \<open>a\<close>, and a mapping
  under the empty key at the root comes back one level up; an empty nested mapping is lost
  by \<open>flatten_json\<close>; a key \<open>a.b\<close> of a document comes back as two nested keys; and a
  document that is a scalar comes back as a mapping.
\<close>

theorem C1_round_trip_counterexample:
  "unflatten_json [(''a'', JInt 1), (''a.b'', JInt 2)] ''.'' = Inl TypeError
   \<and> unflatten_json [(''a.b'', JInt 2), (''a'', JInt 1)] ''.'' = Inr [(''a'', JInt 1)]
   \<and> flatten_json (JDict [(''a'', JInt 1)]) [] ''.'' = [(''a'', JInt 1)]
   \<and> \<not> py_eq (JDict [(''a'', JInt 1)]) (JDict [(''a.b'', JInt 2), (''a'', JInt 1)])
   \<and> unflatten_json [(''.a'', JInt 1)] ''.'' = Inr [([], JDict [(''a'', JInt 1)])]
   \<and> flatten_json (JDict [([], JDict [(''a'', JInt 1)])]) [] ''.'' = [(''a'', JInt 1)]
   \<and> \<not> py_eq (JDict [(''a'', JInt 1)]) (JDict [(''.a'', JInt 1)])
   \<and> unflatten_json [(''a'', JInt 1)] ''.'' = Inr [(''a'', JInt 1)]
   \<and> \<not> py_eq (JDict [(''a'', JInt 1)]) (JDict [([], JDict [(''a'', JInt 1)])])
   \<and> flatten_json (JDict [(''a'', JDict [])]) [] ''.'' = []
   \<and> unflatten_json [] ''.'' = Inr []
   \<and> \<not> py_eq (JDict []) (JDict [(''a'', JDict [])])
   \<and> flatten_json (JDict [(''a.b'', JInt 1)]) [] ''.'' = [(''a.b'', JInt 1)]
   \<and> unflatten_json [(''a.b'', JInt 1)] ''.'' = Inr [(''a'', JDict [(''b'', JInt 1)])]
   \<and> \<not> py_eq (JDict [(''a'', JDict [(''b'', JInt 1)])]) (JDict [(''a.b'', JInt 1)])
   \<and> flatten_json (JInt 5) [] ''.'' = [([], JInt 5)]
   \<and> unflatten_json [([], JInt 5)] ''.'' = Inr [([], JInt 5)]
   \<and> \<not> py_eq (JDict [([], JInt 5)]) (JInt 5)"
  by (simp add: unflatten_json_def flatten_json_def py_split_def split_demo new_key_def)

text \<open>
  C1, amended, for the default separator. When the values of the flat mapping \<open>F\<close> are
  scalars, no key of \<open>F\<close> starts with the separator and the segments of no key are a prefix
  of the segments of another key, \<open>unflatten_json\<close> returns a mapping and flattening it gives
  a dict equal to \<open>F\<close>. When the mapping \<open>D\<close> has no sequence, no empty mapping below its
  root, no separator in a key, and no mapping as the value of the empty key at its root,
  unflattening its flattening gives a dict equal to \<open>D\<close>. Equal is Python's \<open>==\<close>, which
  ignores the order of the items of a dict: both round trips change that order.
\<close>

theorem C1_round_trip:
  "(flat_ok flat_data \<longrightarrow>
      (\<exists>nested. unflatten_json flat_data ''.'' = Inr nested
         \<and> py_eq (JDict (flatten_json (JDict nested) [] ''.'')) (JDict flat_data)))
   \<and> (plain_items d \<and> root_ok d \<longrightarrow>
      (\<exists>nested. unflatten_json (flatten_json (JDict d) [] ''.'') ''.'' = Inr nested
         \<and> py_eq (JDict nested) (JDict d)))"
proof (intro conjI impI)
  assume ok: "flat_ok flat_data"
  from flatten_unflatten_flat [OF ok] obtain nested where
    n: "unflatten_json flat_data ''.'' = Inr nested"
      "dict_wf (flatten_json (JDict nested) [] ''.'')"
      "set (flatten_json (JDict nested) [] ''.'') = set flat_data"
    by blast
  have "distinct (map (split_loop ''.'' []) (map fst flat_data))"
    using ok by (simp add: flat_ok_def prefix_free_distinct comp_def)
  then have "distinct (map fst flat_data)"
    by (simp only: distinct_map [of "split_loop ''.'' []"])
  moreover have "\<forall>kx \<in> set (flatten_json (JDict nested) [] ''.''). scalar (snd kx)"
    using ok by (simp add: n(3) flat_ok_def list_all_iff)
  ultimately have "py_eq (JDict (flatten_json (JDict nested) [] ''.'')) (JDict flat_data)"
    using n(2,3) by (intro py_eq_same_items) (simp_all add: dict_wf_def)
  with n(1) show "\<exists>nested. unflatten_json flat_data ''.'' = Inr nested
         \<and> py_eq (JDict (flatten_json (JDict nested) [] ''.'')) (JDict flat_data)"
    by blast
next
  assume d: "plain_items d \<and> root_ok d"
  then have "unflatten_json (flatten_json (JDict d) [] ''.'') ''.'' = Inr (deep_rev_items d)"
    by (simp add: unflatten_flatten_plain)
  moreover have "py_eq (JDict (deep_rev_items d)) (JDict d)"
    using py_eq_deep_rev(1) [of "JDict d"] d
    by (cases "d = []") simp_all
  ultimately show "\<exists>nested. unflatten_json (flatten_json (JDict d) [] ''.'') ''.'' = Inr nested
         \<and> py_eq (JDict nested) (JDict d)"
    by blast
qed

theorem C1_round_trip_witness:
  "flat_ok demo_flat \<and> plain_items demo_doc \<and> root_ok demo_doc
   \<and> (\<exists>nested. unflatten_json demo_flat ''.'' = Inr nested
         \<and> py_eq (JDict (flatten_json (JDict nested) [] ''.'')) (JDict demo_flat))
   \<and> (\<exists>nested. unflatten_json (flatten_json (JDict demo_doc) [] ''.'') ''.'' = Inr nested
         \<and> py_eq (JDict nested) (JDict demo_doc))"
proof -
  have f: "flat_ok demo_flat"
    by (simp add: flat_ok_def demo_flat_def split_demo)
  have d: "plain_items demo_doc \<and> root_ok demo_doc"
    by (simp add: demo_doc_def root_ok_def)
  show ?thesis
    using C1_round_trip [of demo_flat demo_doc] f d by simp
qed

text \<open>
  C2, as stated: a batch load tells a failed read from a file that holds \<open>null\<close>. The
  failure marker is Python's \<open>None\<close>, which is also what \<open>null\<close> decodes to: a file that
  decodes to \<open>null\<close> and a missing file have the same entry, in all three strategies.
\<close>

theorem C2_marker_counterexample:
  "load_json_from_file demo_sys ''n.json'' demo_files = Inr JNull
   \<and> load_json_from_file demo_sys ''missing.json'' demo_files = Inl OSError
   \<and> load_multiple_json_files demo_sys [0, 1] [] [''n.json'', ''missing.json''] demo_files
       = [(''n.json'', JNull), (''missing.json'', JNull)]
   \<and> async_load_multiple_json_files demo_sys [0, 1] [''n.json'', ''missing.json''] demo_files
       = [(''n.json'', JNull), (''missing.json'', JNull)]
   \<and> process_load_multiple_json_files demo_sys [0, 1] [''n.json'', ''missing.json''] demo_files
       = [(''n.json'', JNull), (''missing.json'', JNull)]"
  by (simp add: load_multiple_json_files_def load_file_helper_def
      async_load_multiple_json_files_def process_load_multiple_json_files_def
      async_load_json_from_file_def load_json_file_def gather_def List.map_filter_def
      load_json_from_file_def as_completed_def demo_sys_def demo_files_def)

text \<open>
  C2, amended. The marker is the null value itself. A path whose file decodes to a document
  has that document as its entry, and a path whose read fails has \<open>None\<close>; so the entry
  of a file that decodes to a document other than \<open>null\<close> is not the marker, while a file
  that decodes to \<open>null\<close> cannot be told from a failure.
\<close>

theorem C2_marker_is_null:
  assumes "schedule (length file_paths) sched"
    and "finished_first (length file_paths) set_order" and "path \<in> set file_paths"
    and "res \<in> {load_multiple_json_files sys sched set_order file_paths w,
                async_load_multiple_json_files sys sched file_paths w,
                process_load_multiple_json_files sys sched file_paths w}"
  shows "(\<forall>e. load_json_from_file sys path w = Inl e \<longrightarrow> map_of res path = Some JNull)
    \<and> (\<forall>data. load_json_from_file sys path w = Inr data \<longrightarrow> map_of res path = Some data)
    \<and> (\<forall>data. load_json_from_file sys path w = Inr data \<longrightarrow> data \<noteq> JNull \<longrightarrow>
          map_of res path \<noteq> Some JNull)"
proof -
  have "map_of res path = Some (load_outcome sys w path)"
    using assms(4) batch_load_entry [OF assms(1,2,3), of sys w] by auto
  then show ?thesis
    by (auto simp: load_outcome_def)
qed

theorem C2_marker_witness:
  "map_of (load_multiple_json_files demo_sys [1, 0] [0] [''a.json'', ''missing.json'']
      demo_files) ''a.json'' = Some (JDict [])
   \<and> map_of (load_multiple_json_files demo_sys [1, 0] [0] [''a.json'', ''missing.json'']
      demo_files) ''missing.json'' = Some JNull"
  using C2_marker_is_null [of "[''a.json'', ''missing.json'']" "[1, 0]" "[0]" "''a.json''"
      "load_multiple_json_files demo_sys [1, 0] [0] [''a.json'', ''missing.json''] demo_files"
      demo_sys demo_files]
  by (simp add: schedule_def finished_first_def load_multiple_json_files_def
      load_file_helper_def load_json_from_file_def as_completed_def demo_sys_def
      demo_files_def)

text \<open>
  C3, as stated: a batch load of N paths returns N entries, as many of them \<open>None\<close> as there
  are failures. A path given twice has one entry, and a file that holds \<open>null\<close> has the
  entry \<open>None\<close> without any failure.
\<close>

theorem C3_batch_load_counterexample:
  "length (load_multiple_json_files demo_sys [0, 1] [] [''a.json'', ''a.json''] demo_files) = 1
   \<and> load_json_from_file demo_sys ''n.json'' demo_files = Inr JNull
   \<and> load_multiple_json_files demo_sys [0] [] [''n.json''] demo_files = [(''n.json'', JNull)]
   \<and> async_load_multiple_json_files demo_sys [0] [''n.json''] demo_files = [(''n.json'', JNull)]
   \<and> process_load_multiple_json_files demo_sys [0] [''n.json''] demo_files = [(''n.json'', JNull)]"
  by (simp add: load_multiple_json_files_def load_file_helper_def
      async_load_multiple_json_files_def process_load_multiple_json_files_def
      async_load_json_from_file_def load_json_file_def gather_def List.map_filter_def
      load_json_from_file_def as_completed_def demo_sys_def demo_files_def)

text \<open>
  C3, amended. In each of the three strategies, for every schedule and every order in which
  \<open>as_completed\<close> yields, the result has one
  entry for each distinct path (so N entries when the N paths differ from each other); a
  path whose load fails maps to \<open>None\<close>, every other path maps to the document its file
  decodes to, and the paths that map to \<open>None\<close> are those that fail and those whose file
  decodes to \<open>null\<close>.
\<close>

theorem C3_batch_load_entries:
  assumes "schedule (length file_paths) sched"
    and "finished_first (length file_paths) set_order"
    and "res \<in> {load_multiple_json_files sys sched set_order file_paths w,
                async_load_multiple_json_files sys sched file_paths w,
                process_load_multiple_json_files sys sched file_paths w}"
  shows "keys res = set file_paths \<and> dict_wf res \<and> length res = card (set file_paths)
    \<and> (distinct file_paths \<longrightarrow> length res = length file_paths)
    \<and> (\<forall>p \<in> set file_paths. map_of res p =
          Some (case load_json_from_file sys p w of Inl e \<Rightarrow> JNull | Inr data \<Rightarrow> data))
    \<and> (\<forall>p \<in> set file_paths. map_of res p = Some JNull \<longleftrightarrow>
          (isl (load_json_from_file sys p w) \<or> load_json_from_file sys p w = Inr JNull))"
proof -
  let ?f = "\<lambda>ps. fold (\<lambda>(k, v). setitem k v) (map (\<lambda>p. (p, load_outcome sys w p)) ps) []"
  have "\<exists>ps. res = ?f ps \<and> set ps = set file_paths"
  proof (cases "res = load_multiple_json_files sys sched set_order file_paths w")
    case True
    then have "res = ?f (map (\<lambda>i. file_paths ! i) (as_completed set_order sched))"
      by (simp only: thread_load_eq [OF assms(1,2)])
    then show ?thesis
      using set_map_nth_schedule [OF as_completed_schedule [OF assms(1,2)]] by blast
  next
    case False
    with assms(3) have "res = ?f file_paths"
      using async_load_eq_fold [OF assms(1), of sys w] process_load_eq_fold [OF assms(1), of sys w]
      by auto
    then show ?thesis by blast
  qed
  then obtain ps where res: "res = ?f ps" and ps: "set ps = set file_paths"
    by blast
  have k: "keys res = set file_paths"
    by (simp add: res keys_fold_setitem) (simp add: keys_def image_image ps)
  have wf: "dict_wf res"
    by (simp add: res dict_wf_fold_setitem)
  have m: "map_of res p = Some (load_outcome sys w p)" if "p \<in> set file_paths" for p
    using that by (simp add: res map_of_fold_setitem_graph ps)
  have len: "length res = card (set file_paths)"
    using length_dict_wf [OF wf] k by simp
  have "\<forall>p \<in> set file_paths. map_of res p = Some JNull \<longleftrightarrow>
          (isl (load_json_from_file sys p w) \<or> load_json_from_file sys p w = Inr JNull)"
    by (auto simp: m load_outcome_def split: sum.splits)
  moreover have "\<forall>p \<in> set file_paths. map_of res p =
          Some (case load_json_from_file sys p w of Inl e \<Rightarrow> JNull | Inr data \<Rightarrow> data)"
    by (simp add: m load_outcome_def)
  ultimately show ?thesis
    using k wf len by (simp add: distinct_card)
qed

theorem C3_batch_load_witness:
  "load_multiple_json_files demo_sys [2, 0, 1, 3] [1, 0]
      [''a.json'', ''n.json'', ''bad.json'', ''missing.json''] demo_files
     = [(''a.json'', JDict []), (''bad.json'', JNull), (''n.json'', JNull),
        (''missing.json'', JNull)]
   \<and> load_json_from_file demo_sys ''a.json'' demo_files = Inr (JDict [])"
  using C3_batch_load_entries [of "[''a.json'', ''n.json'', ''bad.json'', ''missing.json'']"
      "[2, 0, 1, 3]" "[1, 0]"
      "load_multiple_json_files demo_sys [2, 0, 1, 3] [1, 0]
         [''a.json'', ''n.json'', ''bad.json'', ''missing.json''] demo_files"
      demo_sys demo_files]
  by (simp add: schedule_def finished_first_def load_multiple_json_files_def
      load_file_helper_def load_json_from_file_def as_completed_def demo_sys_def
      demo_files_def)

text \<open>
  C4, as stated: \<open>diff_json\<close> has an entry for every key of either dict. It has none for a
  key whose two values are equal, and none for a key that only one dict has with the value
  \<open>None\<close>.
\<close>

theorem C4_diff_counterexample:
  "map_of (diff_json [''x''] [(''x'', JInt 1)] [(''x'', JInt 1)]) ''x'' = None
   \<and> map_of (diff_json [''x''] [(''x'', JNull)] []) ''x'' = None"
  by (simp add: diff_json_def dict_get_def)

text \<open>
  C4, amended. \<open>diff_json\<close> has an entry exactly for the keys \<open>k\<close> with
  \<open>a.get(k) != b.get(k)\<close>, and the entry is \<open>{"old": a.get(k), "new": b.get(k)}\<close>. A key that
  only one of the dicts has is reported, with \<open>None\<close> for the other side, when its value is
  not \<open>None\<close>.
\<close>

theorem C4_diff_entries:
  assumes "set key_order = keys a \<union> keys b"
  shows "map_of (diff_json key_order a b) k =
       (if py_eq (dict_get a k) (dict_get b k) then None
        else Some (JDict [(''old'', dict_get a k), (''new'', dict_get b k)]))
    \<and> (k \<in> keys a - keys b \<and> dict_get a k \<noteq> JNull \<longrightarrow>
         map_of (diff_json key_order a b) k =
           Some (JDict [(''old'', dict_get a k), (''new'', JNull)]))
    \<and> (k \<in> keys b - keys a \<and> dict_get b k \<noteq> JNull \<longrightarrow>
         map_of (diff_json key_order a b) k =
           Some (JDict [(''old'', JNull), (''new'', dict_get b k)]))"
proof -
  have entry: "map_of (diff_json key_order a b) k =
       (if py_eq (dict_get a k) (dict_get b k) then None
        else Some (JDict [(''old'', dict_get a k), (''new'', dict_get b k)]))"
  proof (cases "k \<in> set key_order")
    case True
    then show ?thesis by (simp add: diff_json_def map_of_diff_fold)
  next
    case False
    with assms have "dict_get a k = JNull" "dict_get b k = JNull"
      by (simp_all add: dict_get_absent)
    with False show ?thesis by (simp add: diff_json_def map_of_diff_fold)
  qed
  then show ?thesis
    by (simp add: dict_get_absent)
qed

theorem C4_diff_witness:
  "map_of (diff_json [''x'', ''y'', ''z'']
      [(''x'', JInt 1), (''y'', JInt 2)] [(''x'', JInt 2), (''z'', JInt 3)]) ''y''
    = Some (JDict [(''old'', JInt 2), (''new'', JNull)])"
  using C4_diff_entries [of "[''x'', ''y'', ''z'']" "[(''x'', JInt 1), (''y'', JInt 2)]"
      "[(''x'', JInt 2), (''z'', JInt 3)]" "''y''"]
  by (simp add: dict_get_def insert_commute)

text \<open>
  C5. For dicts \<open>a\<close> and \<open>b\<close>, the dict that \<open>merge_json\<close> returns has the keys of \<open>a\<close> and
  of \<open>b\<close>; every key of \<open>b\<close> has its value in \<open>b\<close>, and every key of \<open>a\<close> that \<open>b\<close> lacks has
  its value in \<open>a\<close>. Values are taken whole, never merged.
\<close>

theorem C5_merge_keys_and_values:
  assumes "dict1 < length s" and "dict2 < length s" and "dict_wf (s ! dict2)"
    and "merge_json s dict1 dict2 = (s', result)"
  shows "keys (s' ! result) = keys (s ! dict1) \<union> keys (s ! dict2)
    \<and> (\<forall>k \<in> keys (s ! dict2). map_of (s' ! result) k = map_of (s ! dict2) k)
    \<and> (\<forall>k \<in> keys (s ! dict1) - keys (s ! dict2).
          map_of (s' ! result) k = map_of (s ! dict1) k)"
proof -
  have r: "s' ! result = fold (\<lambda>(k, v). setitem k v) (s ! dict2) (s ! dict1)"
    using assms by (auto simp: merge_json_eq nth_append)
  have m: "map_of (s' ! result) = map_of (s ! dict1) ++ map_of (s ! dict2)"
    using assms(3) by (simp add: r map_of_fold_setitem map_of_rev_distinct dict_wf_def)
  have "keys (s' ! result) = keys (s ! dict1) \<union> keys (s ! dict2)"
    by (simp add: r keys_fold_setitem)
  moreover have "\<forall>k \<in> keys (s ! dict2). map_of (s' ! result) k = map_of (s ! dict2) k"
    by (simp add: m keys_conv_dom map_add_dom_app_simps)
  moreover have "\<forall>k \<in> keys (s ! dict1) - keys (s ! dict2).
      map_of (s' ! result) k = map_of (s ! dict1) k"
    by (simp add: m keys_conv_dom map_add_dom_app_simps)
  ultimately show ?thesis by simp
qed

theorem C5_merge_witness:
  "keys (fst (merge_json [[(''x'', JInt 1)], [(''x'', JInt 2), (''y'', JInt 3)]] 0 1) ! 2)
     = {''x'', ''y''}
   \<and> fst (merge_json [[(''x'', JInt 1)], [(''x'', JInt 2), (''y'', JInt 3)]] 0 1) ! 2
     = [(''x'', JInt 2), (''y'', JInt 3)]"
  using C5_merge_keys_and_values
    [of 0 "[[(''x'', JInt 1)], [(''x'', JInt 2), (''y'', JInt 3)]]" 1
      "fst (merge_json [[(''x'', JInt 1)], [(''x'', JInt 2), (''y'', JInt 3)]] 0 1)" 2]
  by (simp add: merge_json_eq dict_wf_def keys_def)

text \<open>
  C8. Searching the key \<open>target\<close> in \<open>{"a": {"b": {"target": 1}}, "target": 2}\<close> returns a
  list whose elements, as a multiset, are 1 and 2.
\<close>

theorem C8_search_nested_key_scenario:
  "mset (search_nested_key
      (JDict [(''a'', JDict [(''b'', JDict [(''target'', JInt 1)])]), (''target'', JInt 2)])
      ''target'') = {#JInt 1, JInt 2#}"
  by (simp add: search_nested_key_def)

text \<open>
  C9. \<open>merge_json\<close> leaves its two arguments as they were: after the call the objects
  \<open>dict1\<close> and \<open>dict2\<close>, and every other object that existed before, hold the items they held,
  also when \<open>dict1\<close> and \<open>dict2\<close> are the same object; the result is a newly allocated dict.
  \<open>update_json_key\<close> and \<open>remove_json_key\<close> instead return the object they were given,
  changed in place.
\<close>

theorem C9_merge_leaves_inputs_unchanged:
  assumes "dict1 < length s" and "dict2 < length s"
    and "merge_json s dict1 dict2 = (s', result)"
  shows "s' ! dict1 = s ! dict1 \<and> s' ! dict2 = s ! dict2
    \<and> take (length s) s' = s \<and> result = length s \<and> length s' = Suc (length s)
    \<and> snd (update_json_key s dict1 key value) = dict1
    \<and> fst (update_json_key s dict1 key value) ! dict1 = setitem key value (s ! dict1)
    \<and> snd (remove_json_key s dict1 key) = dict1
    \<and> fst (remove_json_key s dict1 key) ! dict1 = AList.delete key (s ! dict1)"
proof -
  have "fst (remove_json_key s dict1 key) ! dict1 = AList.delete key (s ! dict1)"
    using assms(1)
    by (simp add: remove_json_key_def keys_def delete_notin_dom delete_idem
        AList.delete_id)
  then show ?thesis
    using assms by (auto simp: merge_json_eq nth_append update_json_key_def remove_json_key_def)
qed

theorem C9_merge_witness:
  "merge_json [[(''x'', JInt 1)], [(''x'', JInt 2), (''y'', JInt 3)]] 0 1 =
     ([[(''x'', JInt 1)], [(''x'', JInt 2), (''y'', JInt 3)], [(''x'', JInt 2), (''y'', JInt 3)]], 2)
   \<and> update_json_key [[(''x'', JInt 1)], [(''x'', JInt 2), (''y'', JInt 3)]] 0 ''y'' (JInt 5) =
     ([[(''x'', JInt 1), (''y'', JInt 5)], [(''x'', JInt 2), (''y'', JInt 3)]], 0)"
  using C9_merge_leaves_inputs_unchanged
    [of 0 "[[(''x'', JInt 1)], [(''x'', JInt 2), (''y'', JInt 3)]]" 1
      "fst (merge_json [[(''x'', JInt 1)], [(''x'', JInt 2), (''y'', JInt 3)]] 0 1)" 2
      "''y''" "JInt 5"]
  by (simp add: merge_json_eq update_json_key_def)

text \<open>
  C10. The search goes on below a matched value, in every document. The results for a
  mapping are, for each of its items, the value itself when the key matches, together with
  everything the search finds inside that value, matched or not; the results for a sequence
  are those of its elements; a scalar has none. These equations determine the results, as a
  multiset, for every document: they are the values that \<open>matches\<close> collects by recursion.
  So searching \<open>target\<close> in \<open>{"target": {"target": 1}}\<close> returns the inner mapping and 1, and
  in \<open>{"target": [{"target": 1}]}\<close> it returns the sequence and 1.
\<close>

theorem C10_search_descends_into_matches:
  "mset (search_nested_key data search_key) = mset (matches search_key data)
   \<and> mset (search_nested_key (JDict items) search_key) =
     (\<Sum>kv\<leftarrow>items. (if fst kv = search_key then {#snd kv#} else {#})
        + mset (search_nested_key (snd kv) search_key))
   \<and> mset (search_nested_key (JList xs) search_key) =
     (\<Sum>x\<leftarrow>xs. mset (search_nested_key x search_key))
   \<and> search_nested_key JNull search_key = []
   \<and> search_nested_key (JBool b) search_key = []
   \<and> search_nested_key (JInt n) search_key = []
   \<and> search_nested_key (JStr s) search_key = []
   \<and> search_nested_key (JDict [(''target'', JDict [(''target'', JInt 1)])]) ''target'' =
     [JDict [(''target'', JInt 1)], JInt 1]
   \<and> search_nested_key (JDict [(''target'', JList [JDict [(''target'', JInt 1)]])]) ''target'' =
     [JList [JDict [(''target'', JInt 1)]], JInt 1]"
proof (intro conjI)
  show "mset (search_nested_key data search_key) = mset (matches search_key data)"
    by (rule mset_search_nested_key)
  show "mset (search_nested_key (JDict items) search_key) =
     (\<Sum>kv\<leftarrow>items. (if fst kv = search_key then {#snd kv#} else {#})
        + mset (search_nested_key (snd kv) search_key))"
    by (simp add: mset_search_nested_key mset_matches_items_sum)
  show "mset (search_nested_key (JList xs) search_key) =
     (\<Sum>x\<leftarrow>xs. mset (search_nested_key x search_key))"
    by (simp add: mset_search_nested_key mset_matches_list_sum)
qed (simp_all add: search_nested_key_def)

end
